theory Spec2Isabelle
  imports
    Main
    "HOL-Library.Word"
    "HOL-Library.AList"
    "HOL-Library.Multiset"
    "HOL-Library.Char_ord"
    "HOL-Library.List_Lexorder"
begin

section \<open>The stats concentrator of the trace agent (pkg/trace/stats/concentrator.go)\<close>

text \<open>
  The concentrator buckets spans by end time into windows of \<open>bsize\<close> nanoseconds and
  flushes windows that are old enough. Timestamps are Go \<open>int64\<close>: they are modelled as
  64-bit words, so \<open>+\<close>, \<open>-\<close> and \<open>*\<close> wrap around as in Go, comparisons are the signed
  ones (\<open><s\<close>, \<open>\<le>s\<close>) and \<open>sint\<close> reads the value. Go maps are association lists; the
  order of a list stands for one of the iteration orders that Go leaves unspecified.
  A run-time panic is the value \<open>Inl\<close> of a sum type.
\<close>

type_synonym int64 = "64 word"

datatype panic = DivideByZero | NonPositiveInterval

subsection \<open>Integer arithmetic of Go\<close>

text \<open>
  Go's \<open>x % y\<close> on signed integers truncates towards zero: the remainder has the sign of
  the dividend, and \<open>x % -1\<close> is 0 also for the most negative \<open>x\<close>. A zero divisor
  panics.
\<close>

definition go_rem :: "int64 \<Rightarrow> int64 \<Rightarrow> panic + int64" where
  "go_rem x y =
     (if y = 0 then Inl DivideByZero
      else Inr (word_of_int (sgn (sint x) * (\<bar>sint x\<bar> mod \<bar>sint y\<bar>))))"

text \<open>\<open>alignTs\<close> (lines 320-324): \<open>ts - ts%bsize\<close>.\<close>

definition alignTs :: "int64 \<Rightarrow> int64 \<Rightarrow> panic + int64" where
  "alignTs ts bsize = (case go_rem ts bsize of Inl e \<Rightarrow> Inl e | Inr r \<Rightarrow> Inr (ts - r))"

subsection \<open>strings.ToLower and computeStatsForSpanKind\<close>

text \<open>
  A Go string is a byte sequence: \<open>string\<close>. \<open>strings.ToLower\<close> of the standard library
  maps \<open>A-Z\<close> bytewise when every byte is ASCII and returns the string itself when it has
  no upper-case letter; a string with a byte \<open>\<ge> 0x80\<close> goes through the Unicode tables,
  which are a parameter \<open>uni\<close> here.
\<close>

definition ascii_lower :: "char \<Rightarrow> char" where
  "ascii_lower c =
     (if (65::nat) \<le> of_char c \<and> of_char c \<le> (90::nat) then char_of (of_char c + (32::nat)) else c)"

definition ToLower :: "(string \<Rightarrow> string) \<Rightarrow> string \<Rightarrow> string" where
  "ToLower uni s =
     (if list_all (\<lambda>c. of_char c < (128::nat)) s
      then (if list_ex (\<lambda>c. (65::nat) \<le> of_char c \<and> of_char c \<le> (90::nat)) s
            then map ascii_lower s else s)
      else uni s)"

text \<open>
  Of a \<open>pb.Span\<close> the fields below are kept; the ids, the error flag and the type are
  not read here. \<open>Metrics\<close> holds \<open>float64\<close> values in Go, of which only integral
  ones occur in this development.
\<close>

record Span =
  Service :: string
  Name :: string
  Resource :: string
  Start :: int64
  Duration :: int64
  Meta :: "string \<rightharpoonup> string"
  Metrics :: "string \<rightharpoonup> int"

text \<open>Reading a Go map at an absent key gives the zero value, the empty string.\<close>

definition meta_get :: "(string \<rightharpoonup> string) \<Rightarrow> string \<Rightarrow> string" where
  "meta_get m k = (case m k of None \<Rightarrow> [] | Some v \<Rightarrow> v)"

definition computeStatsForSpanKind :: "(string \<Rightarrow> string) \<Rightarrow> Span \<Rightarrow> bool" where
  "computeStatsForSpanKind uni s =
     (let k = ToLower uni (meta_get (Meta s) ''span.kind'')
      in if k = ''server'' \<or> k = ''consumer'' \<or> k = ''client'' \<or> k = ''producer''
         then True else False)"

subsection \<open>preparePeerTags\<close>

text \<open>
  Lines 89-103. The loop keeps the set \<open>seen\<close> and appends each tag not seen before;
  \<open>sort.Strings\<close> sorts by Go's string order, the lexicographic order of the bytes,
  which is the order of \<open>string\<close> here. The \<open>nil\<close> slice is the empty list.
\<close>

fun dedup_loop :: "string list \<Rightarrow> string set \<Rightarrow> string list \<Rightarrow> string list" where
  "dedup_loop [] seen deduped = deduped"
| "dedup_loop (t # ts) seen deduped =
     (if t \<notin> seen then dedup_loop ts (insert t seen) (deduped @ [t])
      else dedup_loop ts seen deduped)"

definition sort_Strings :: "string list \<Rightarrow> string list" where
  "sort_Strings xs = sort xs"

definition preparePeerTags :: "string list \<Rightarrow> string list" where
  "preparePeerTags tags =
     (if length tags = 0 then [] else sort_Strings (dedup_loop tags {} []))"

subsection \<open>Data model\<close>

text \<open>
  \<open>PayloadAggregationKey\<close>, \<open>RawBucket\<close>, \<open>ProcessedTrace\<close> and the protobuf payloads are
  declared outside this file. Of a \<open>RawBucket\<close> the concentrator touches the field
  \<open>containerTagsByID\<close>; everything else in it is the opaque part \<open>rb_data\<close>.
  Fields that share a name in Go carry the struct's prefix (\<open>pt_\<close>, \<open>in_\<close>, \<open>csp_\<close>,
  \<open>conf_\<close>). A pointer that may be \<open>nil\<close> is an \<open>option\<close>.
\<close>

record PayloadAggregationKey =
  Env :: string
  Hostname :: string
  Version :: string
  ContainerID :: string
  GitCommitSha :: string
  ImageTag :: string

record 'd RawBucket =
  containerTagsByID :: "string \<rightharpoonup> string list"
  rb_data :: 'd

record TraceChunk =
  Spans :: "Span list"
  Origin :: string

record ProcessedTrace =
  TracerHostname :: string
  TracerEnv :: string
  AppVersion :: string
  pt_GitCommitSha :: string
  pt_ImageTag :: string
  Root :: "Span option"
  pt_TraceChunk :: TraceChunk

record Input =
  Traces :: "ProcessedTrace list"
  in_ContainerID :: string
  ContainerTags :: "string list"

record 's ClientStatsPayload =
  csp_Env :: string
  csp_Hostname :: string
  csp_ContainerID :: string
  csp_Version :: string
  csp_GitCommitSha :: string
  csp_ImageTag :: string
  csp_Stats :: "'s list"
  Tags :: "string list"

record 's StatsPayload =
  Stats :: "'s ClientStatsPayload list"
  AgentHostname :: string
  AgentEnv :: string
  AgentVersion :: string

record AgentConfig =
  BucketInterval :: int64
  DefaultEnv :: string
  conf_Hostname :: string
  conf_AgentVersion :: string
  PeerServiceAggregation :: bool
  PeerTagsAggregation :: bool
  PeerTags :: "string list"
  ComputeStatsBySpanKind :: bool

text \<open>
  The \<open>Concentrator\<close> (lines 40-64) without its writer, channel, wait group, mutex and
  statsd client. \<open>bufferLen\<close> is a Go \<open>int\<close>, 64 bits wide on the agent's platforms.
\<close>

record 'd Concentrator =
  bsize :: int64
  oldestTs :: int64
  bufferLen :: int64
  buckets :: "(int64 \<times> 'd RawBucket) list"
  agentEnv :: string
  agentHostname :: string
  agentVersion :: string
  peerTagsAggregation :: bool
  computeStatsBySpanKind :: bool
  peerTagKeys :: "string list"

text \<open>
  The functions the concentrator calls in other packages and files: the span predicates
  of \<open>traceutil\<close>, \<open>weight\<close>, the bucket aggregator (\<open>NewRawBucket\<close>, \<open>HandleSpan\<close>,
  \<open>Export\<close>) and the Unicode path of \<open>strings.ToLower\<close>. They are parameters of the
  model; \<open>'w\<close> is the type of a weight and \<open>'s\<close> that of a \<open>ClientStatsBucket\<close>.
\<close>

record ('d, 'w, 's) deps =
  HasTopLevel :: "Span \<Rightarrow> bool"
  IsMeasured :: "Span \<Rightarrow> bool"
  IsPartialSnapshot :: "Span \<Rightarrow> bool"
  weight :: "Span option \<Rightarrow> 'w"
  NewRawBucket :: "int64 \<Rightarrow> int64 \<Rightarrow> 'd RawBucket"
  HandleSpan :: "Span \<Rightarrow> 'w \<Rightarrow> bool \<Rightarrow> string \<Rightarrow> PayloadAggregationKey \<Rightarrow> bool \<Rightarrow> string list
                 \<Rightarrow> 'd RawBucket \<Rightarrow> 'd RawBucket"
  Export :: "'d RawBucket \<Rightarrow> (PayloadAggregationKey \<times> 's) list"
  unicodeToLower :: "string \<Rightarrow> string"

definition defaultBufferLen :: int64 where
  "defaultBufferLen = 2"

subsection \<open>NewConcentrator\<close>

text \<open>
  Lines 106-130. \<open>now\<close> is \<open>now.UnixNano()\<close>; \<open>defaultPeerTags\<close>, computed from an
  embedded file, is a parameter.
\<close>

definition NewConcentrator :: "string list \<Rightarrow> AgentConfig \<Rightarrow> int64 \<Rightarrow> panic + 'd Concentrator" where
  "NewConcentrator defaultPeerTags conf now =
     (case alignTs now (BucketInterval conf) of
        Inl e \<Rightarrow> Inl e
      | Inr a \<Rightarrow>
          Inr \<lparr> bsize = BucketInterval conf,
                oldestTs = a,
                bufferLen = defaultBufferLen,
                buckets = [],
                agentEnv = DefaultEnv conf,
                agentHostname = conf_Hostname conf,
                agentVersion = conf_AgentVersion conf,
                peerTagsAggregation = (PeerServiceAggregation conf \<or> PeerTagsAggregation conf),
                computeStatsBySpanKind = ComputeStatsBySpanKind conf,
                peerTagKeys =
                  (if PeerServiceAggregation conf \<or> PeerTagsAggregation conf
                   then preparePeerTags (defaultPeerTags @ PeerTags conf) else []) \<rparr>)"

subsection \<open>Add and addNow\<close>

text \<open>Lines 242-248: the bucket timestamp of a span, with the lateness clamp.\<close>

definition bucket_time :: "'d Concentrator \<Rightarrow> Span \<Rightarrow> panic + int64" where
  "bucket_time c s =
     (let endt = Start s + Duration s
      in case go_rem endt (bsize c) of
           Inl e \<Rightarrow> Inl e
         | Inr r \<Rightarrow>
             (let btime = endt - r
              in Inr (if btime <s oldestTs c then oldestTs c else btime)))"

text \<open>
  Lines 250-257: the bucket at \<open>btime\<close>, created when the map has none; a new bucket
  gets the container tags when the container id and the tags are not empty.
\<close>

definition bucket_at ::
  "('d, 'w, 's) deps \<Rightarrow> 'd Concentrator \<Rightarrow> int64 \<Rightarrow> string \<Rightarrow> string list \<Rightarrow> 'd RawBucket" where
  "bucket_at D c btime containerID containerTags =
     (case map_of (buckets c) btime of
        Some b \<Rightarrow> b
      | None \<Rightarrow>
          (let b = NewRawBucket D btime (bsize c)
           in if containerID \<noteq> [] \<and> length containerTags > 0
              then b\<lparr>containerTagsByID := (containerTagsByID b)(containerID \<mapsto> containerTags)\<rparr>
              else b))"

text \<open>
  Lines 234-258: the body of the loop over the spans of a trace chunk. \<open>continue\<close>
  leaves the concentrator as it is.
\<close>

definition addNow_span ::
  "('d, 'w, 's) deps \<Rightarrow> 'd Concentrator \<Rightarrow> 'w \<Rightarrow> string \<Rightarrow> PayloadAggregationKey \<Rightarrow> string
     \<Rightarrow> string list \<Rightarrow> Span \<Rightarrow> panic + 'd Concentrator" where
  "addNow_span D c w origin aggKey containerID containerTags s =
     (let isTop = HasTopLevel D s;
          eligibleSpanKind =
            (computeStatsBySpanKind c \<and> computeStatsForSpanKind (unicodeToLower D) s)
      in if \<not> (isTop \<or> IsMeasured D s \<or> eligibleSpanKind) then Inr c
         else if IsPartialSnapshot D s then Inr c
         else
           (case bucket_time c s of
              Inl e \<Rightarrow> Inl e
            | Inr btime \<Rightarrow>
                (let b = bucket_at D c btime containerID containerTags
                 in Inr (c\<lparr>buckets :=
                            AList.update btime
                              (HandleSpan D s w isTop origin aggKey
                                 (peerTagsAggregation c) (peerTagKeys c) b)
                              (buckets c)\<rparr>))))"

fun addNow_loop ::
  "('d, 'w, 's) deps \<Rightarrow> 'd Concentrator \<Rightarrow> 'w \<Rightarrow> string \<Rightarrow> PayloadAggregationKey \<Rightarrow> string
     \<Rightarrow> string list \<Rightarrow> Span list \<Rightarrow> panic + 'd Concentrator" where
  "addNow_loop D c w origin aggKey containerID containerTags [] = Inr c"
| "addNow_loop D c w origin aggKey containerID containerTags (s # ss) =
     (case addNow_span D c w origin aggKey containerID containerTags s of
        Inl e \<Rightarrow> Inl e
      | Inr c' \<Rightarrow> addNow_loop D c' w origin aggKey containerID containerTags ss)"

definition addNow ::
  "('d, 'w, 's) deps \<Rightarrow> 'd Concentrator \<Rightarrow> ProcessedTrace \<Rightarrow> string \<Rightarrow> string list
     \<Rightarrow> panic + 'd Concentrator" where
  "addNow D c pt containerID containerTags =
     (let hostname = (if TracerHostname pt = [] then agentHostname c else TracerHostname pt);
          env = (if TracerEnv pt = [] then agentEnv c else TracerEnv pt);
          w = weight D (Root pt);
          aggKey = \<lparr> Env = env, Hostname = hostname, Version = AppVersion pt,
                     ContainerID = containerID, GitCommitSha = pt_GitCommitSha pt,
                     ImageTag = pt_ImageTag pt \<rparr>
      in addNow_loop D c w (Origin (pt_TraceChunk pt)) aggKey containerID containerTags
           (Spans (pt_TraceChunk pt)))"

fun Add_loop ::
  "('d, 'w, 's) deps \<Rightarrow> 'd Concentrator \<Rightarrow> string \<Rightarrow> string list \<Rightarrow> ProcessedTrace list
     \<Rightarrow> panic + 'd Concentrator" where
  "Add_loop D c containerID containerTags [] = Inr c"
| "Add_loop D c containerID containerTags (pt # pts) =
     (case addNow D c pt containerID containerTags of
        Inl e \<Rightarrow> Inl e
      | Inr c' \<Rightarrow> Add_loop D c' containerID containerTags pts)"

definition Add :: "('d, 'w, 's) deps \<Rightarrow> 'd Concentrator \<Rightarrow> Input \<Rightarrow> panic + 'd Concentrator" where
  "Add D c t = Add_loop D c (in_ContainerID t) (ContainerTags t) (Traces t)"

subsection \<open>Flush\<close>

text \<open>
  Lines 286-291: the records of one exported bucket are appended to \<open>m\<close> under their
  key, and the bucket's container tags are copied.
\<close>

fun export_loop ::
  "(string \<rightharpoonup> string list) \<Rightarrow> (PayloadAggregationKey \<times> 's) list
     \<Rightarrow> (PayloadAggregationKey \<times> 's list) list \<Rightarrow> (string \<rightharpoonup> string list)
     \<Rightarrow> (PayloadAggregationKey \<times> 's list) list \<times> (string \<rightharpoonup> string list)" where
  "export_loop srbTags [] m ct = (m, ct)"
| "export_loop srbTags ((k, b) # rest) m ct =
     export_loop srbTags rest
       (AList.update k ((case map_of m k of None \<Rightarrow> [] | Some bs \<Rightarrow> bs) @ [b]) m)
       (case srbTags (ContainerID k) of
          Some ctags \<Rightarrow> ct(ContainerID k \<mapsto> ctags)
        | None \<Rightarrow> ct)"

text \<open>
  Lines 273-293: the sweep over the bucket map. A bucket with
  \<open>ts > now - int64(bufferLen)*bsize\<close> is kept unless \<open>force\<close>; any other bucket is
  exported and deleted. The result is the map that remains, \<open>m\<close> and the container tags.
\<close>

fun sweep ::
  "('d, 'w, 's) deps \<Rightarrow> 'd Concentrator \<Rightarrow> int64 \<Rightarrow> bool \<Rightarrow> (int64 \<times> 'd RawBucket) list
     \<Rightarrow> (PayloadAggregationKey \<times> 's list) list \<Rightarrow> (string \<rightharpoonup> string list)
     \<Rightarrow> (int64 \<times> 'd RawBucket) list \<times> (PayloadAggregationKey \<times> 's list) list
         \<times> (string \<rightharpoonup> string list)" where
  "sweep D c now force [] m ct = ([], m, ct)"
| "sweep D c now force ((ts, srb) # rest) m ct =
     (if \<not> force \<and> now - bufferLen c * bsize c <s ts
      then (case sweep D c now force rest m ct of
              (kept, m', ct') \<Rightarrow> ((ts, srb) # kept, m', ct'))
      else (case export_loop (containerTagsByID srb) (Export D srb) m ct of
              (m1, ct1) \<Rightarrow> sweep D c now force rest m1 ct1))"

text \<open>Lines 302-315: one \<open>ClientStatsPayload\<close> for each key of \<open>m\<close>.\<close>

definition assemble ::
  "(PayloadAggregationKey \<times> 's list) list \<Rightarrow> (string \<rightharpoonup> string list)
     \<Rightarrow> 's ClientStatsPayload list" where
  "assemble m ct =
     map (\<lambda>(k, s).
            \<lparr> csp_Env = Env k, csp_Hostname = Hostname k, csp_ContainerID = ContainerID k,
              csp_Version = Version k, csp_GitCommitSha = GitCommitSha k,
              csp_ImageTag = ImageTag k, csp_Stats = s,
              Tags = (case ct (ContainerID k) of None \<Rightarrow> [] | Some t \<Rightarrow> t) \<rparr>) m"

text \<open>
  \<open>flushNow\<close> (lines 268-318) returns the concentrator after the flush and the pointer
  to the payload.
\<close>

definition flushNow ::
  "('d, 'w, 's) deps \<Rightarrow> 'd Concentrator \<Rightarrow> int64 \<Rightarrow> bool
     \<Rightarrow> panic + ('d Concentrator \<times> 's StatsPayload option)" where
  "flushNow D c now force =
     (case sweep D c now force (buckets c) [] Map.empty of
        (kept, m, ct) \<Rightarrow>
          (case alignTs now (bsize c) of
             Inl e \<Rightarrow> Inl e
           | Inr a \<Rightarrow>
               (let newOldestTs = a - (bufferLen c - 1) * bsize c;
                    c' = c\<lparr>buckets := kept,
                           oldestTs := (if oldestTs c <s newOldestTs then newOldestTs
                                        else oldestTs c)\<rparr>;
                    sb = assemble m ct
                in Inr (c', Some \<lparr> Stats = sb, AgentHostname = agentHostname c,
                                   AgentEnv = agentEnv c, AgentVersion = agentVersion c \<rparr>))))"

subsection \<open>Run\<close>

text \<open>
  Lines 144-161. \<open>time.NewTicker\<close> panics on a period that is not positive. The loop
  reacts to the ticker and to the exit channel; each event carries the clock reading
  that \<open>Flush\<close> takes (line 265). The writer is the list of the payloads handed to
  \<open>Write\<close>. When the events run out the loop is waiting, and the state reached so far
  is returned.
\<close>

datatype event = Tick int64 | Exit int64

fun Run_loop ::
  "('d, 'w, 's) deps \<Rightarrow> event list \<Rightarrow> 'd Concentrator \<Rightarrow> 's StatsPayload option list
     \<Rightarrow> panic + ('d Concentrator \<times> 's StatsPayload option list)" where
  "Run_loop D [] c written = Inr (c, written)"
| "Run_loop D (Tick now # es) c written =
     (case flushNow D c now False of
        Inl e \<Rightarrow> Inl e
      | Inr (c', p) \<Rightarrow> Run_loop D es c' (written @ [p]))"
| "Run_loop D (Exit now # es) c written =
     (case flushNow D c now True of
        Inl e \<Rightarrow> Inl e
      | Inr (c', p) \<Rightarrow> Inr (c', written @ [p]))"

definition Run ::
  "('d, 'w, 's) deps \<Rightarrow> event list \<Rightarrow> 'd Concentrator \<Rightarrow> 's StatsPayload option list
     \<Rightarrow> panic + ('d Concentrator \<times> 's StatsPayload option list)" where
  "Run D es c written =
     (if bsize c \<le>s 0 then Inl NonPositiveInterval else Run_loop D es c written)"

text \<open>
  A sequence of calls on one concentrator, as its callers make them under the mutex:
  \<open>Add\<close> with an input, or a flush with its clock reading and \<open>force\<close>.
\<close>

datatype call = CallAdd Input | CallFlush int64 bool

fun calls ::
  "('d, 'w, 's) deps \<Rightarrow> call list \<Rightarrow> 'd Concentrator \<Rightarrow> panic + 'd Concentrator" where
  "calls D [] c = Inr c"
| "calls D (CallAdd t # cs) c =
     (case Add D c t of Inl e \<Rightarrow> Inl e | Inr c' \<Rightarrow> calls D cs c')"
| "calls D (CallFlush now force # cs) c =
     (case flushNow D c now force of Inl e \<Rightarrow> Inl e | Inr (c', p) \<Rightarrow> calls D cs c')"

subsection \<open>A counting aggregator\<close>

text \<open>
  Modelled from the spec: the bucket aggregator (\<open>RawBucket\<close> with \<open>NewRawBucket\<close>,
  \<open>HandleSpan\<close> and \<open>Export\<close>), the span predicates of \<open>traceutil\<close> and \<open>weight\<close> are not
  in concentrator.go. The spec gives the aggregator's contract: a bucket is created for
  a timestamp and a width, \<open>handleSpan\<close> accumulates a span under its aggregation key, and
  \<open>export\<close> yields one stats record for each aggregation key seen. The instance below
  counts the weighted hits of each key; top-level, measured and partial-snapshot spans
  are flagged in the span's metrics. It is used to run the concentrator on concrete
  inputs; the theorems hold for every instance.
\<close>

record ClientStatsBucket =
  csb_Start :: int64
  csb_Duration :: int64
  csb_Hits :: nat

record hit_data =
  hd_start :: int64
  hd_duration :: int64
  hd_hits :: "(PayloadAggregationKey \<times> nat) list"

definition counting :: "(hit_data, nat, ClientStatsBucket) deps" where
  "counting =
     \<lparr> HasTopLevel = (\<lambda>s. Metrics s ''_top_level'' = Some 1),
       IsMeasured = (\<lambda>s. Metrics s ''_dd.measured'' = Some 1),
       IsPartialSnapshot = (\<lambda>s. case Metrics s ''_dd.partial_version'' of
                                    None \<Rightarrow> False | Some v \<Rightarrow> 0 \<le> v),
       weight = (\<lambda>r. 1),
       NewRawBucket = (\<lambda>ts w. \<lparr> containerTagsByID = Map.empty,
                                  rb_data = \<lparr> hd_start = ts, hd_duration = w, hd_hits = [] \<rparr> \<rparr>),
       HandleSpan = (\<lambda>s w isTop origin k pta ptk b.
                       b\<lparr>rb_data := (rb_data b)
                           \<lparr>hd_hits :=
                              AList.update k
                                ((case map_of (hd_hits (rb_data b)) k of
                                    None \<Rightarrow> 0 | Some n \<Rightarrow> n) + w)
                                (hd_hits (rb_data b))\<rparr>\<rparr>),
       Export = (\<lambda>b. map (\<lambda>(k, n). (k, \<lparr> csb_Start = hd_start (rb_data b),
                                             csb_Duration = hd_duration (rb_data b),
                                             csb_Hits = n \<rparr>))
                        (hd_hits (rb_data b))),
       unicodeToLower = (\<lambda>s. s) \<rparr>"

text \<open>Concrete inputs: a configuration with 10 ns buckets and spans flagged in three ways.\<close>

definition conf10 :: AgentConfig where
  "conf10 =
     \<lparr> BucketInterval = 10, DefaultEnv = ''prod'', conf_Hostname = ''host-a'',
       conf_AgentVersion = ''7.50'', PeerServiceAggregation = False,
       PeerTagsAggregation = False, PeerTags = [], ComputeStatsBySpanKind = True \<rparr>"

definition span_at :: "int64 \<Rightarrow> int64 \<Rightarrow> (string \<rightharpoonup> string) \<Rightarrow> (string \<rightharpoonup> int) \<Rightarrow> Span" where
  "span_at st d meta metrics =
     \<lparr> Service = ''web'', Name = ''http.request'', Resource = ''GET /'',
       Start = st, Duration = d, Meta = meta, Metrics = metrics \<rparr>"

definition trace_of :: "Span list \<Rightarrow> ProcessedTrace" where
  "trace_of ss =
     \<lparr> TracerHostname = [], TracerEnv = [], AppVersion = ''1.0'', pt_GitCommitSha = [],
       pt_ImageTag = [], Root = None, pt_TraceChunk = \<lparr> Spans = ss, Origin = [] \<rparr> \<rparr>"

definition input_of :: "Span list \<Rightarrow> Input" where
  "input_of ss = \<lparr> Traces = [trace_of ss], in_ContainerID = [], ContainerTags = [] \<rparr>"

definition key_a :: PayloadAggregationKey where
  "key_a =
     \<lparr> Env = ''prod'', Hostname = ''host-a'', Version = ''1.0'', ContainerID = [],
       GitCommitSha = [], ImageTag = [] \<rparr>"

text \<open>
  The concentrator that \<open>NewConcentrator\<close> builds from \<open>conf10\<close> when the aligned clock
  reading is \<open>t\<close>, and the bucket that holds one hit of \<open>key_a\<close>.
\<close>

definition conc_at :: "int64 \<Rightarrow> hit_data Concentrator" where
  "conc_at t =
     \<lparr> bsize = 10, oldestTs = t, bufferLen = 2, buckets = [],
       agentEnv = ''prod'', agentHostname = ''host-a'', agentVersion = ''7.50'',
       peerTagsAggregation = False, computeStatsBySpanKind = True, peerTagKeys = [] \<rparr>"

definition bucket_a :: "int64 \<Rightarrow> hit_data RawBucket" where
  "bucket_a ts =
     \<lparr> containerTagsByID = Map.empty,
       rb_data = \<lparr> hd_start = ts, hd_duration = 10, hd_hits = [(key_a, 1)] \<rparr> \<rparr>"

definition top_level :: "string \<rightharpoonup> int" where
  "top_level = [''_top_level'' \<mapsto> 1]"

text \<open>
  The spec's comparison of kinds, case-insensitive: two strings are equal up to the case
  of their ASCII letters. An upper-case letter and its lower-case letter differ by 32,
  so they agree modulo 32.
\<close>

definition ascii_letter :: "char \<Rightarrow> bool" where
  "ascii_letter c =
     (((65::nat) \<le> of_char c \<and> of_char c \<le> (90::nat))
      \<or> ((97::nat) \<le> of_char c \<and> of_char c \<le> (122::nat)))"

definition same_letter :: "char \<Rightarrow> char \<Rightarrow> bool" where
  "same_letter a b =
     (a = b \<or> (ascii_letter a \<and> ascii_letter b
                \<and> (of_char a :: nat) mod 32 = (of_char b :: nat) mod 32))"

definition equal_fold :: "string \<Rightarrow> string \<Rightarrow> bool" where
  "equal_fold xs ys = list_all2 same_letter xs ys"

text \<open>
  The spec's floor: the greatest multiple of the width \<open>w\<close> that is at most \<open>e\<close>, on the
  mathematical integers.
\<close>

definition spec_floor :: "int \<Rightarrow> int \<Rightarrow> int" where
  "spec_floor e w = (e div w) * w"

text \<open>The clock readings of the flushes in a sequence of calls.\<close>

fun flush_times :: "call list \<Rightarrow> int64 list" where
  "flush_times [] = []"
| "flush_times (CallAdd t # cs) = flush_times cs"
| "flush_times (CallFlush now force # cs) = now # flush_times cs"

text \<open>The aggregation key that a group of the payload was built from (lines 304-311).\<close>

definition group_key :: "'s ClientStatsPayload \<Rightarrow> PayloadAggregationKey" where
  "group_key g =
     \<lparr> Env = csp_Env g, Hostname = csp_Hostname g, Version = csp_Version g,
       ContainerID = csp_ContainerID g, GitCommitSha = csp_GitCommitSha g,
       ImageTag = csp_ImageTag g \<rparr>"

text \<open>
  A concentrator that holds the buckets 1000 and 1020, the one that a flush at 1025
  leaves of it, and the payload parts that the counting aggregator exports.
\<close>

definition conc_two :: "hit_data Concentrator" where
  "conc_two = (conc_at 1000)\<lparr>buckets := [(1000, bucket_a 1000), (1020, bucket_a 1020)]\<rparr>"

definition conc_kept :: "hit_data Concentrator" where
  "conc_kept = conc_two\<lparr>buckets := [(1020, bucket_a 1020)], oldestTs := 1010\<rparr>"

definition stats_a :: "int64 \<Rightarrow> ClientStatsBucket" where
  "stats_a ts = \<lparr> csb_Start = ts, csb_Duration = 10, csb_Hits = 1 \<rparr>"

definition group_a :: "int64 \<Rightarrow> ClientStatsBucket ClientStatsPayload" where
  "group_a ts =
     \<lparr> csp_Env = ''prod'', csp_Hostname = ''host-a'', csp_ContainerID = [],
       csp_Version = ''1.0'', csp_GitCommitSha = [], csp_ImageTag = [],
       csp_Stats = [stats_a ts], Tags = [] \<rparr>"

definition payload_of ::
  "ClientStatsBucket ClientStatsPayload list \<Rightarrow> ClientStatsBucket StatsPayload" where
  "payload_of gs =
     \<lparr> Stats = gs, AgentHostname = ''host-a'', AgentEnv = ''prod'', AgentVersion = ''7.50'' \<rparr>"

section \<open>Properties\<close>

subsection \<open>Go arithmetic on 64-bit words\<close>

lemma sint_range64: "- (2^63) \<le> sint (x::int64) \<and> sint x < 2^63"
  using sint_ge[of x] sint_lt[of x] by simp

lemma sint_nz: "(y::int64) \<noteq> 0 \<Longrightarrow> sint y \<noteq> 0"
  by (metis signed_eq_0_iff)

lemma sint_word_of_int64:
  "- (2^63) \<le> v \<Longrightarrow> v < 2^63 \<Longrightarrow> sint (word_of_int v :: int64) = v"
  by (simp add: sint_sbintrunc' signed_take_bit_int_eq_self)

lemma rem_bounds:
  fixes a b :: int
  assumes "b \<noteq> 0"
  shows "(0 \<le> a \<longrightarrow> 0 \<le> sgn a * (\<bar>a\<bar> mod \<bar>b\<bar>) \<and> sgn a * (\<bar>a\<bar> mod \<bar>b\<bar>) \<le> a)
       \<and> (a < 0 \<longrightarrow> a \<le> sgn a * (\<bar>a\<bar> mod \<bar>b\<bar>) \<and> sgn a * (\<bar>a\<bar> mod \<bar>b\<bar>) \<le> 0)"
proof -
  have p: "0 \<le> \<bar>a\<bar> mod \<bar>b\<bar>" using assms by simp
  have q: "\<bar>a\<bar> mod \<bar>b\<bar> \<le> \<bar>a\<bar>" by (rule zmod_le_nonneg_dividend) simp
  show ?thesis using p q by (auto simp: sgn_if)
qed

lemma go_rem_sint:
  assumes "y \<noteq> 0"
  shows "\<exists>r. go_rem x y = Inr r \<and> sint r = sgn (sint x) * (\<bar>sint x\<bar> mod \<bar>sint y\<bar>)"
proof -
  have y0: "sint y \<noteq> 0" using assms by (rule sint_nz)
  let ?v = "sgn (sint x) * (\<bar>sint x\<bar> mod \<bar>sint y\<bar>)"
  have "- (2^63) \<le> ?v \<and> ?v < 2^63"
    using rem_bounds[OF y0, of "sint x"] sint_range64[of x] by (cases "0 \<le> sint x") auto
  then have "sint (word_of_int ?v :: int64) = ?v"
    by (intro sint_word_of_int64) simp_all
  then show ?thesis using assms by (simp add: go_rem_def)
qed

lemma alignTs_sint:
  assumes "y \<noteq> 0"
  shows "\<exists>a. alignTs x y = Inr a \<and> sint a = sint x - sgn (sint x) * (\<bar>sint x\<bar> mod \<bar>sint y\<bar>)"
proof -
  have y0: "sint y \<noteq> 0" using assms by (rule sint_nz)
  obtain r where r: "go_rem x y = Inr r" "sint r = sgn (sint x) * (\<bar>sint x\<bar> mod \<bar>sint y\<bar>)"
    using go_rem_sint[OF assms] by blast
  have "- (2^63) \<le> sint x - sint r \<and> sint x - sint r < 2^63"
    using rem_bounds[OF y0, of "sint x"] sint_range64[of x] r(2) by (cases "0 \<le> sint x") auto
  then have "sint (x - r) = sint x - sint r"
    by (simp add: sint_word_ariths signed_take_bit_int_eq_self)
  then show ?thesis using r by (simp add: alignTs_def)
qed

text \<open>
  Where the products and differences stay inside \<open>int64\<close>, the cutoff of the retention
  check is the one of the integers.
\<close>

lemma cutoff_sint:
  assumes "- (2^63) \<le> sint n * sint w" "sint n * sint w < 2^63"
    and "- (2^63) \<le> sint now - sint n * sint w" "sint now - sint n * sint w < 2^63"
  shows "sint (now - n * w :: int64) = sint now - sint n * sint w"
proof -
  have "sint (n * w) = sint n * sint w"
    using assms(1,2) by (simp add: sint_word_ariths signed_take_bit_int_eq_self)
  then show ?thesis
    using assms(3,4) by (simp add: sint_word_ariths signed_take_bit_int_eq_self)
qed

text \<open>
  \<open>NewConcentrator\<close> panics on a zero bucket width: every concentrator it returns has
  a width other than zero, \<open>bufferLen\<close> 2 and no buckets.
\<close>

lemma NewConcentrator_bsize:
  "NewConcentrator defaultPeerTags conf now = Inr c
     \<Longrightarrow> bsize c \<noteq> 0 \<and> bufferLen c = 2 \<and> buckets c = []"
  by (auto simp: NewConcentrator_def alignTs_def go_rem_def defaultBufferLen_def
      split: if_splits sum.splits)

subsection \<open>Peer tags\<close>

lemma dedup_loop_inv:
  "seen = set deduped \<Longrightarrow> distinct deduped \<Longrightarrow>
     distinct (dedup_loop ts seen deduped) \<and>
     set (dedup_loop ts seen deduped) = set deduped \<union> set ts"
proof (induction ts arbitrary: seen deduped)
  case Nil
  then show ?case by simp
next
  case (Cons t ts)
  show ?case
  proof (cases "t \<in> seen")
    case True
    then show ?thesis using Cons.IH[of seen deduped] Cons.prems by auto
  next
    case False
    have "insert t seen = set (deduped @ [t])" using Cons.prems by simp
    moreover have "distinct (deduped @ [t])" using Cons.prems False by simp
    ultimately show ?thesis using Cons.IH[of "insert t seen" "deduped @ [t]"] False by auto
  qed
qed

lemma preparePeerTags_sorted_list:
  "preparePeerTags tags = sorted_list_of_set (set tags)"
proof (cases tags)
  case Nil
  then show ?thesis by (simp add: preparePeerTags_def)
next
  case (Cons t ts)
  let ?d = "dedup_loop tags {} []"
  have d: "distinct ?d" "set ?d = set tags"
    using dedup_loop_inv[of "{}" "[]" tags] by simp_all
  have "sorted (sort ?d)" "distinct (sort ?d)" "set (sort ?d) = set tags"
    using d by simp_all
  then have "sort ?d = sorted_list_of_set (set tags)"
    by (metis sorted_list_of_set.idem_if_sorted_distinct)
  then show ?thesis using Cons by (simp add: preparePeerTags_def sort_Strings_def)
qed

text \<open>
  Claim C7. For every list of tags, \<open>preparePeerTags\<close> gives the same result on every
  reordering of the list (two lists with the same multiset of elements), its result has
  no duplicates, has exactly the elements of the input and is strictly ascending in the
  lexicographic order of strings; the empty input gives the empty result.
\<close>

theorem preparePeerTags_deterministic:
  "(mset xs = mset ys \<longrightarrow> preparePeerTags xs = preparePeerTags ys)
   \<and> distinct (preparePeerTags xs)
   \<and> set (preparePeerTags xs) = set xs
   \<and> sorted_wrt (<) (preparePeerTags xs)
   \<and> preparePeerTags [] = []"
proof -
  have "mset xs = mset ys \<longrightarrow> set xs = set ys" by (metis set_mset_mset)
  then show ?thesis
    by (simp add: preparePeerTags_sorted_list strict_sorted_iff)
qed

theorem preparePeerTags_deterministic_witness:
  "mset [''peer.service'', ''db.name'', ''peer.service'']
     = mset [''peer.service'', ''peer.service'', ''db.name'']
   \<and> preparePeerTags [''peer.service'', ''db.name'', ''peer.service'']
       = preparePeerTags [''peer.service'', ''peer.service'', ''db.name'']"
proof -
  have h: "mset [''peer.service'', ''db.name'', ''peer.service'']
             = mset [''peer.service'', ''peer.service'', ''db.name'']"
    by simp
  show ?thesis
    using h preparePeerTags_deterministic
      [of "[''peer.service'', ''db.name'', ''peer.service'']"
          "[''peer.service'', ''peer.service'', ''db.name'']"]
    by blast
qed

subsection \<open>Span kind\<close>

text \<open>On ASCII strings \<open>strings.ToLower\<close> maps every byte with \<open>ascii_lower\<close>.\<close>

lemma ToLower_ascii:
  "list_all (\<lambda>c. of_char c < (128::nat)) s \<Longrightarrow> ToLower uni s = map ascii_lower s"
  by (auto simp: ToLower_def ascii_lower_def list_ex_iff list_all_iff intro!: map_idI[symmetric])

lemma mod32_a:
  fixes n :: nat
  assumes "64 < n" "n < 96"
  shows "n mod 32 = n - 64"
proof -
  have "n = (n - 64) + 2 * 32" using assms by simp
  then have "n mod 32 = (n - 64) mod 32" by (metis mod_mult_self1)
  then show ?thesis using assms by simp
qed

lemma mod32_b:
  fixes n :: nat
  assumes "96 < n" "n < 128"
  shows "n mod 32 = n - 96"
proof -
  have "n = (n - 96) + 3 * 32" using assms by simp
  then have "n mod 32 = (n - 96) mod 32" by (metis mod_mult_self1)
  then show ?thesis using assms by simp
qed

lemma mod32_upper_lower:
  fixes n m :: nat
  assumes "65 \<le> n" "n \<le> 90" "97 \<le> m" "m \<le> 122"
  shows "(n + 32 = m) = (n mod 32 = m mod 32)"
  using mod32_a[of n] mod32_b[of m] assms by auto

lemma mod32_lower_lower:
  fixes n m :: nat
  assumes "97 \<le> n" "n \<le> 122" "97 \<le> m" "m \<le> 122" "n mod 32 = m mod 32"
  shows "n = m"
  using mod32_b[of n] mod32_b[of m] assms by auto

text \<open>
  Lower-casing a byte gives a lower-case letter exactly when the byte is that letter in
  either case.
\<close>

lemma ascii_lower_same_letter:
  assumes b: "(97::nat) \<le> of_char b" "of_char b \<le> (122::nat)"
  shows "(ascii_lower a = b) = same_letter a b"
proof -
  define n :: nat where "n = of_char a"
  define m :: nat where "m = of_char b"
  have mb: "97 \<le> m" "m \<le> 122" using b by (simp_all add: m_def)
  have inj: "(a = b) = (n = m)"
    unfolding n_def m_def by simp
  show ?thesis
  proof (cases "65 \<le> n \<and> n \<le> 90")
    case True
    have ne: "a \<noteq> b" using True mb inj by simp
    have lt: "n + 32 < 256" using True by simp
    have "(ascii_lower a = b) = (char_of (n + 32) = b)"
      using True by (simp add: ascii_lower_def n_def)
    also have "\<dots> = (n + 32 = m)"
    proof
      assume "char_of (n + 32) = b"
      then have "m = (n + 32) mod 256" unfolding m_def by (metis of_char_of)
      then show "n + 32 = m" using lt by simp
    next
      assume "n + 32 = m"
      then show "char_of (n + 32) = b" unfolding m_def by simp
    qed
    also have "\<dots> = (n mod 32 = m mod 32)"
      using mod32_upper_lower[of n m] True mb by simp
    also have "\<dots> = same_letter a b"
      using True mb ne by (simp add: same_letter_def ascii_letter_def n_def m_def)
    finally show ?thesis .
  next
    case False
    have F: "\<not> ((65::nat) \<le> of_char a \<and> of_char a \<le> (90::nat))"
      using False by (simp add: n_def)
    have "(ascii_lower a = b) = (a = b)" by (simp only: ascii_lower_def F if_False)
    also have "\<dots> = same_letter a b"
    proof
      assume "a = b" then show "same_letter a b" by (simp add: same_letter_def)
    next
      assume s: "same_letter a b"
      show "a = b"
      proof (rule ccontr)
        assume ab: "a \<noteq> b"
        then have l: "ascii_letter a" and e: "n mod 32 = m mod 32"
          using s by (simp_all add: same_letter_def n_def m_def)
        have "97 \<le> n \<and> n \<le> 122"
          using l F unfolding ascii_letter_def n_def by blast
        then have "n = m" using mod32_lower_lower[of n m] mb e by simp
        then show False using ab inj by simp
      qed
    qed
    finally show ?thesis .
  qed
qed

lemma map_ascii_lower_equal_fold:
  "list_all (\<lambda>c. (97::nat) \<le> of_char c \<and> of_char c \<le> (122::nat)) w
     \<Longrightarrow> (map ascii_lower v = w) = equal_fold v w"
proof (induction v arbitrary: w)
  case Nil
  then show ?case by (auto simp: equal_fold_def)
next
  case (Cons a v)
  show ?case
  proof (cases w)
    case Nil
    then show ?thesis by (simp add: equal_fold_def)
  next
    case (Cons b w')
    have b: "(97::nat) \<le> of_char b" "of_char b \<le> (122::nat)"
      and w': "list_all (\<lambda>c. (97::nat) \<le> of_char c \<and> of_char c \<le> (122::nat)) w'"
      using Cons.prems Cons by simp_all
    show ?thesis
      using Cons.IH[OF w'] ascii_lower_same_letter[OF b, of a]
      by (simp add: Cons equal_fold_def)
  qed
qed

lemma kinds_lower:
  "list_all (\<lambda>c. (97::nat) \<le> of_char c \<and> of_char c \<le> (122::nat)) ''server''"
  "list_all (\<lambda>c. (97::nat) \<le> of_char c \<and> of_char c \<le> (122::nat)) ''consumer''"
  "list_all (\<lambda>c. (97::nat) \<le> of_char c \<and> of_char c \<le> (122::nat)) ''client''"
  "list_all (\<lambda>c. (97::nat) \<le> of_char c \<and> of_char c \<le> (122::nat)) ''producer''"
  by simp_all

text \<open>
  Claim C6. \<open>computeStatsForSpanKind\<close> is true exactly when the lower-cased value of the
  span's \<open>span.kind\<close> meta entry is one of \<open>server\<close>, \<open>consumer\<close>, \<open>client\<close>,
  \<open>producer\<close>: for an entry \<open>v\<close> the result is whether \<open>strings.ToLower v\<close> is one of
  the four, and for an ASCII entry it is whether \<open>v\<close> equals one of the four up to the
  case of its letters. It is false for a span with no \<open>span.kind\<close> entry and for one
  whose entry is the empty string.
\<close>

theorem computeStatsForSpanKind_iff:
  "computeStatsForSpanKind uni s
     = (ToLower uni (meta_get (Meta s) ''span.kind'')
          \<in> {''server'', ''consumer'', ''client'', ''producer''})
   \<and> (Meta s ''span.kind'' = Some v \<longrightarrow>
         computeStatsForSpanKind uni s
           = (ToLower uni v \<in> {''server'', ''consumer'', ''client'', ''producer''}))
   \<and> (Meta s ''span.kind'' = Some v \<and> list_all (\<lambda>c. of_char c < (128::nat)) v \<longrightarrow>
         computeStatsForSpanKind uni s
           = (equal_fold v ''server'' \<or> equal_fold v ''consumer''
              \<or> equal_fold v ''client'' \<or> equal_fold v ''producer''))
   \<and> (Meta s ''span.kind'' = None \<longrightarrow> \<not> computeStatsForSpanKind uni s)
   \<and> (Meta s ''span.kind'' = Some [] \<longrightarrow> \<not> computeStatsForSpanKind uni s)
   \<and> \<not> computeStatsForSpanKind uni (s\<lparr>Meta := (Meta s)(''span.kind'' := None)\<rparr>)
   \<and> \<not> computeStatsForSpanKind uni (s\<lparr>Meta := (Meta s)(''span.kind'' \<mapsto> [])\<rparr>)"
proof -
  have gen: "computeStatsForSpanKind uni t
     = (ToLower uni (meta_get (Meta t) ''span.kind'')
          \<in> {''server'', ''consumer'', ''client'', ''producer''})" for t
    by (simp add: computeStatsForSpanKind_def Let_def)
  have empty: "ToLower uni [] = []" by (simp add: ToLower_def)
  have some: "Meta s ''span.kind'' = Some v \<longrightarrow>
         computeStatsForSpanKind uni s
           = (ToLower uni v \<in> {''server'', ''consumer'', ''client'', ''producer''})"
    by (simp add: gen meta_get_def)
  have fold: "Meta s ''span.kind'' = Some v \<and> list_all (\<lambda>c. of_char c < (128::nat)) v \<longrightarrow>
         computeStatsForSpanKind uni s
           = (equal_fold v ''server'' \<or> equal_fold v ''consumer''
              \<or> equal_fold v ''client'' \<or> equal_fold v ''producer'')"
  proof (intro impI, elim conjE)
    assume m: "Meta s ''span.kind'' = Some v" and a: "list_all (\<lambda>c. of_char c < (128::nat)) v"
    have "computeStatsForSpanKind uni s
            = (map ascii_lower v \<in> {''server'', ''consumer'', ''client'', ''producer''})"
      using m by (simp add: gen meta_get_def ToLower_ascii[OF a])
    also have "\<dots> = (equal_fold v ''server'' \<or> equal_fold v ''consumer''
              \<or> equal_fold v ''client'' \<or> equal_fold v ''producer'')"
      using map_ascii_lower_equal_fold[OF kinds_lower(1), of v]
        map_ascii_lower_equal_fold[OF kinds_lower(2), of v]
        map_ascii_lower_equal_fold[OF kinds_lower(3), of v]
        map_ascii_lower_equal_fold[OF kinds_lower(4), of v]
      by (simp only: insert_iff empty_iff) simp
    finally show "computeStatsForSpanKind uni s
           = (equal_fold v ''server'' \<or> equal_fold v ''consumer''
              \<or> equal_fold v ''client'' \<or> equal_fold v ''producer'')" .
  qed
  have none: "Meta s ''span.kind'' = None \<longrightarrow> \<not> computeStatsForSpanKind uni s"
    by (simp add: gen meta_get_def empty)
  have nil: "Meta s ''span.kind'' = Some [] \<longrightarrow> \<not> computeStatsForSpanKind uni s"
    by (simp add: gen meta_get_def empty)
  have upd: "\<not> computeStatsForSpanKind uni (s\<lparr>Meta := (Meta s)(''span.kind'' := None)\<rparr>)"
    "\<not> computeStatsForSpanKind uni (s\<lparr>Meta := (Meta s)(''span.kind'' \<mapsto> [])\<rparr>)"
    by (simp_all add: gen meta_get_def empty)
  show ?thesis using gen[of s] some fold none nil upd by blast
qed

text \<open>
  Claim C6 at concrete spans: the kind \<open>SeRvEr\<close> is eligible, the kind \<open>internal\<close>
  and a span without a kind are not.
\<close>

theorem computeStatsForSpanKind_iff_witness:
  "Meta (span_at 0 0 [''span.kind'' \<mapsto> ''SeRvEr''] Map.empty) ''span.kind'' = Some ''SeRvEr''
   \<and> list_all (\<lambda>c. of_char c < (128::nat)) ''SeRvEr''
   \<and> equal_fold ''SeRvEr'' ''server''
   \<and> computeStatsForSpanKind (\<lambda>x. x) (span_at 0 0 [''span.kind'' \<mapsto> ''SeRvEr''] Map.empty)
   \<and> Meta (span_at 0 0 [''span.kind'' \<mapsto> ''internal''] Map.empty) ''span.kind''
       = Some ''internal''
   \<and> list_all (\<lambda>c. of_char c < (128::nat)) ''internal''
   \<and> \<not> computeStatsForSpanKind (\<lambda>x. x)
         (span_at 0 0 [''span.kind'' \<mapsto> ''internal''] Map.empty)
   \<and> Meta (span_at 0 0 Map.empty Map.empty) ''span.kind'' = None
   \<and> \<not> computeStatsForSpanKind (\<lambda>x. x) (span_at 0 0 Map.empty Map.empty)"
proof -
  let ?s1 = "span_at 0 0 [''span.kind'' \<mapsto> ''SeRvEr''] Map.empty"
  let ?s2 = "span_at 0 0 [''span.kind'' \<mapsto> ''internal''] Map.empty"
  let ?s3 = "span_at 0 0 Map.empty Map.empty"
  have m1: "Meta ?s1 ''span.kind'' = Some ''SeRvEr''" by (simp add: span_at_def)
  have a1: "list_all (\<lambda>c. of_char c < (128::nat)) ''SeRvEr''" by simp
  have e1: "equal_fold ''SeRvEr'' ''server''"
    by (simp add: equal_fold_def same_letter_def ascii_letter_def)
  have m2: "Meta ?s2 ''span.kind'' = Some ''internal''" by (simp add: span_at_def)
  have a2: "list_all (\<lambda>c. of_char c < (128::nat)) ''internal''" by simp
  have e2: "\<not> equal_fold ''internal'' ''server''" "\<not> equal_fold ''internal'' ''consumer''"
    "\<not> equal_fold ''internal'' ''client''" "\<not> equal_fold ''internal'' ''producer''"
    by (simp_all add: equal_fold_def same_letter_def ascii_letter_def)
  have m3: "Meta ?s3 ''span.kind'' = None" by (simp add: span_at_def)
  have c1: "computeStatsForSpanKind (\<lambda>x. x) ?s1"
    using computeStatsForSpanKind_iff[of "\<lambda>x. x" ?s1 "''SeRvEr''"] m1 a1 e1 by blast
  have c2: "\<not> computeStatsForSpanKind (\<lambda>x. x) ?s2"
    using computeStatsForSpanKind_iff[of "\<lambda>x. x" ?s2 "''internal''"] m2 a2 e2 by blast
  have c3: "\<not> computeStatsForSpanKind (\<lambda>x. x) ?s3"
    using computeStatsForSpanKind_iff[of "\<lambda>x. x" ?s3 "[]"] m3 by blast
  show ?thesis using m1 a1 e1 c1 m2 a2 c2 m3 c3 by blast
qed

lemma computeStatsForSpanKind_mixed_case:
  "computeStatsForSpanKind uni (span_at 0 0 [''span.kind'' \<mapsto> ''SeRvEr''] Map.empty)"
  by code_simp

lemma computeStatsForSpanKind_internal:
  "\<not> computeStatsForSpanKind uni (span_at 0 0 [''span.kind'' \<mapsto> ''internal''] Map.empty)"
  by code_simp

subsection \<open>The bucket timestamp of a span\<close>

lemma bucket_time_total:
  assumes "bsize c \<noteq> 0"
  shows "\<exists>bt. bucket_time c s = Inr bt"
  using go_rem_sint[OF assms, of "Start s + Duration s"]
  by (auto simp: bucket_time_def Let_def)

lemma bucket_time_alignTs:
  "bucket_time c s =
     (case alignTs (Start s + Duration s) (bsize c) of
        Inl e \<Rightarrow> Inl e
      | Inr btime \<Rightarrow> Inr (if btime <s oldestTs c then oldestTs c else btime))"
  by (simp add: bucket_time_def alignTs_def Let_def split: sum.splits)

lemma bucket_time_sint:
  assumes "bsize c \<noteq> 0"
  shows "\<exists>bt. bucket_time c s = Inr bt \<and>
           sint bt = (let t = sint (Start s + Duration s)
                              - sgn (sint (Start s + Duration s))
                                * (\<bar>sint (Start s + Duration s)\<bar> mod \<bar>sint (bsize c)\<bar>)
                      in if t < sint (oldestTs c) then sint (oldestTs c) else t)"
proof -
  obtain a where a: "alignTs (Start s + Duration s) (bsize c) = Inr a"
    "sint a = sint (Start s + Duration s)
               - sgn (sint (Start s + Duration s))
                 * (\<bar>sint (Start s + Duration s)\<bar> mod \<bar>sint (bsize c)\<bar>)"
    using alignTs_sint[OF assms] by blast
  show ?thesis
    by (simp add: bucket_time_alignTs a Let_def word_sless_alt)
qed

text \<open>Truncation towards zero is the floor for a time at or after the epoch.\<close>

lemma trunc_nonneg_floor:
  fixes e w :: int
  assumes "0 < w" "0 \<le> e"
  shows "e - sgn e * (\<bar>e\<bar> mod \<bar>w\<bar>) = spec_floor e w"
proof -
  have "e - e mod w = (e div w) * w" by (simp add: minus_mod_eq_div_mult)
  then show ?thesis using assms by (cases "e = 0") (simp_all add: spec_floor_def)
qed

lemma trunc_neg_bounds:
  fixes e w :: int
  assumes "0 < w" "e < 0"
  shows "e - sgn e * (\<bar>e\<bar> mod \<bar>w\<bar>) \<le> 0 \<and> spec_floor e w < 0"
proof -
  have "\<bar>e\<bar> mod \<bar>w\<bar> \<le> \<bar>e\<bar>" by (rule zmod_le_nonneg_dividend) simp
  then have a: "e - sgn e * (\<bar>e\<bar> mod \<bar>w\<bar>) \<le> 0" using assms by (simp add: sgn_if)
  have "e div w < 0" using assms by (simp add: div_neg_pos_less0)
  then have "(e div w) * w < 0" using assms by (simp add: mult_neg_pos)
  then show ?thesis using a by (simp add: spec_floor_def)
qed

text \<open>
  Claim C1, amended. Let the bucket width be positive and let the span's end time
  \<open>e = Start + Duration\<close> (the \<open>int64\<close> sum) be non-negative, or the watermark
  \<open>oldestTs\<close> be non-negative. Then for every span that passes the filter of \<open>addNow\<close>
  the bucket timestamp is \<open>floor(e, bsize)\<close> when that is at least \<open>oldestTs\<close>, and
  \<open>oldestTs\<close> otherwise; the span is not dropped: \<open>addNow\<close> returns, and the bucket
  stored under that timestamp is the one \<open>HandleSpan\<close> got the span applied to.
\<close>

theorem bucket_time_alignment:
  assumes wpos: "0 <s bsize c"
    and dom: "0 \<le>s Start s + Duration s \<or> 0 \<le>s oldestTs c"
    and el: "HasTopLevel D s \<or> IsMeasured D s \<or>
             (computeStatsBySpanKind c \<and> computeStatsForSpanKind (unicodeToLower D) s)"
    and np: "\<not> IsPartialSnapshot D s"
  shows "\<exists>bt c'.
           bucket_time c s = Inr bt
         \<and> sint bt =
             (if sint (oldestTs c)
                   \<le> spec_floor (sint (Start s + Duration s)) (sint (bsize c))
              then spec_floor (sint (Start s + Duration s)) (sint (bsize c))
              else sint (oldestTs c))
         \<and> addNow_span D c w origin aggKey containerID containerTags s = Inr c'
         \<and> map_of (buckets c') bt =
             Some (HandleSpan D s w (HasTopLevel D s) origin aggKey
                     (peerTagsAggregation c) (peerTagKeys c)
                     (bucket_at D c bt containerID containerTags))"
proof -
  let ?e = "sint (Start s + Duration s)"
  let ?w = "sint (bsize c)"
  let ?o = "sint (oldestTs c)"
  let ?t = "?e - sgn ?e * (\<bar>?e\<bar> mod \<bar>?w\<bar>)"
  have w0: "0 < ?w" using wpos by (simp add: word_sless_alt)
  then have nz: "bsize c \<noteq> 0" by auto
  obtain bt where bt: "bucket_time c s = Inr bt"
    and sbt: "sint bt = (if ?t < ?o then ?o else ?t)"
    using bucket_time_sint[OF nz, of s] by (auto simp: Let_def)
  have val: "sint bt = (if ?o \<le> spec_floor ?e ?w then spec_floor ?e ?w else ?o)"
  proof (cases "0 \<le> ?e")
    case True
    then show ?thesis using sbt trunc_nonneg_floor[OF w0 True] by auto
  next
    case False
    then have neg: "?e < 0" by simp
    then have "0 \<le> ?o" using dom by (simp add: word_sle_eq)
    then show ?thesis using sbt trunc_neg_bounds[OF w0 neg] by auto
  qed
  have "addNow_span D c w origin aggKey containerID containerTags s =
          Inr (c\<lparr>buckets :=
                   AList.update bt
                     (HandleSpan D s w (HasTopLevel D s) origin aggKey
                        (peerTagsAggregation c) (peerTagKeys c)
                        (bucket_at D c bt containerID containerTags))
                     (buckets c)\<rparr>)"
    using el np by (auto simp: addNow_span_def Let_def bt)
  then show ?thesis using bt val by (simp add: update_conv')
qed

text \<open>
  Claim C1, the amended statement at a late span: bucket width 10, watermark 1000, a
  top-level span that ends at 975. Its floor 970 is below the watermark, so the span
  goes to bucket 1000.
\<close>

theorem bucket_time_alignment_witness:
  "0 <s bsize (conc_at 1000)
   \<and> (0 \<le>s Start (span_at 975 0 Map.empty top_level) + Duration (span_at 975 0 Map.empty top_level)
        \<or> 0 \<le>s oldestTs (conc_at 1000))
   \<and> HasTopLevel counting (span_at 975 0 Map.empty top_level)
   \<and> \<not> IsPartialSnapshot counting (span_at 975 0 Map.empty top_level)
   \<and> bucket_time (conc_at 1000) (span_at 975 0 Map.empty top_level) = Inr 1000
   \<and> (\<exists>c'. addNow_span counting (conc_at 1000) 1 [] key_a [] [] (span_at 975 0 Map.empty top_level)
             = Inr c'
           \<and> map_of (buckets c') 1000 = Some (bucket_a 1000))"
proof -
  let ?c = "conc_at 1000"
  let ?s = "span_at 975 0 Map.empty top_level"
  have h1: "0 <s bsize ?c" by (simp add: conc_at_def word_sless_alt)
  have h2: "0 \<le>s Start ?s + Duration ?s \<or> 0 \<le>s oldestTs ?c"
    by (simp add: conc_at_def span_at_def word_sle_eq)
  have h3: "HasTopLevel counting ?s \<or> IsMeasured counting ?s \<or>
             (computeStatsBySpanKind ?c \<and> computeStatsForSpanKind (unicodeToLower counting) ?s)"
    by (simp add: counting_def span_at_def top_level_def)
  have h4: "\<not> IsPartialSnapshot counting ?s"
    by (simp add: counting_def span_at_def top_level_def)
  have bt: "bucket_time ?c ?s = Inr 1000"
    by (simp add: bucket_time_def go_rem_def conc_at_def span_at_def Let_def word_sless_alt)
  have b: "HandleSpan counting ?s 1 (HasTopLevel counting ?s) [] key_a
             (peerTagsAggregation ?c) (peerTagKeys ?c) (bucket_at counting ?c 1000 [] [])
           = bucket_a 1000"
    by (simp add: counting_def bucket_at_def conc_at_def bucket_a_def)
  from bucket_time_alignment[OF h1 h2 h3 h4, of 1 "[]" key_a "[]" "[]"]
  show ?thesis using h1 h2 h4 bt b
    by (auto simp: counting_def span_at_def top_level_def)
qed

text \<open>
  Claim C1 as stated fails before the epoch. A concentrator built at clock reading -100
  has the watermark -100; a top-level span that ends at -5 has the floor -10, which is
  not below the watermark, yet its bucket is 0: Go's \<open>%\<close> truncates towards zero.
\<close>

theorem bucket_time_floor_counterexample:
  "NewConcentrator [] conf10 (- 100) = Inr (conc_at (- 100))
   \<and> HasTopLevel counting (span_at (- 5) 0 Map.empty top_level)
   \<and> \<not> IsPartialSnapshot counting (span_at (- 5) 0 Map.empty top_level)
   \<and> bucket_time (conc_at (- 100)) (span_at (- 5) 0 Map.empty top_level) = Inr 0
   \<and> sint (oldestTs (conc_at (- 100)))
        \<le> spec_floor (sint (- 5 + 0 :: int64)) (sint (bsize (conc_at (- 100))))
   \<and> spec_floor (sint (- 5 + 0 :: int64)) (sint (bsize (conc_at (- 100)))) = - 10
   \<and> sint (0 :: int64) \<noteq> spec_floor (sint (- 5 + 0 :: int64)) (sint (bsize (conc_at (- 100))))"
  by (simp add: NewConcentrator_def conf10_def conc_at_def alignTs_def go_rem_def
      bucket_time_def span_at_def spec_floor_def defaultBufferLen_def Let_def
      word_sless_alt word_sle_eq counting_def top_level_def)

subsection \<open>Eligibility\<close>




subsection \<open>The sweep of a flush\<close>

lemma sweep_kept:
  "fst (sweep D c now force bs m ct)
     = filter (\<lambda>(ts, b). \<not> force \<and> now - bufferLen c * bsize c <s ts) bs"
proof (induction bs arbitrary: m ct)
  case Nil
  then show ?case by simp
next
  case (Cons x bs)
  obtain ts srb where x: "x = (ts, srb)" by (cases x)
  show ?case
  proof (cases "\<not> force \<and> now - bufferLen c * bsize c <s ts")
    case True
    then show ?thesis using Cons.IH[of m ct] by (simp add: x case_prod_unfold)
  next
    case False
    then show ?thesis
      using Cons.IH[of "fst (export_loop (containerTagsByID srb) (Export D srb) m ct)"
                       "snd (export_loop (containerTagsByID srb) (Export D srb) m ct)"]
      by (auto simp: x case_prod_unfold)
  qed
qed

lemma sweep_all_kept:
  "\<forall>(ts, b) \<in> set bs. \<not> force \<and> now - bufferLen c * bsize c <s ts
     \<Longrightarrow> sweep D c now force bs m ct = (bs, m, ct)"
  by (induction bs arbitrary: m ct) (auto simp: case_prod_unfold)

lemma export_loop_keeps:
  "map_of m k = Some bs \<Longrightarrow> b \<in> set bs
     \<Longrightarrow> \<exists>bs'. map_of (fst (export_loop tags ex m ct)) k = Some bs' \<and> b \<in> set bs'"
proof (induction ex arbitrary: m ct bs)
  case Nil
  then show ?case by simp
next
  case (Cons x ex)
  obtain k' b' where x: "x = (k', b')" by (cases x)
  let ?m = "AList.update k' ((case map_of m k' of None \<Rightarrow> [] | Some bs \<Rightarrow> bs) @ [b']) m"
  have "\<exists>bs1. map_of ?m k = Some bs1 \<and> b \<in> set bs1"
    using Cons.prems by (cases "k' = k") (auto simp: update_conv')
  then obtain bs1 where "map_of ?m k = Some bs1" "b \<in> set bs1" by blast
  from Cons.IH[OF this] show ?case by (simp add: x)
qed

lemma export_loop_adds:
  "(k, b) \<in> set ex
     \<Longrightarrow> \<exists>bs'. map_of (fst (export_loop tags ex m ct)) k = Some bs' \<and> b \<in> set bs'"
proof (induction ex arbitrary: m ct)
  case Nil
  then show ?case by simp
next
  case (Cons x ex)
  obtain k' b' where x: "x = (k', b')" by (cases x)
  let ?m = "AList.update k' ((case map_of m k' of None \<Rightarrow> [] | Some bs \<Rightarrow> bs) @ [b']) m"
  let ?ct = "(case tags (ContainerID k') of Some ctags \<Rightarrow> ct(ContainerID k' \<mapsto> ctags) | None \<Rightarrow> ct)"
  show ?case
  proof (cases "(k, b) = (k', b')")
    case True
    have "map_of ?m k = Some ((case map_of m k' of None \<Rightarrow> [] | Some bs \<Rightarrow> bs) @ [b'])"
      using True by (simp add: update_conv')
    moreover have "b \<in> set ((case map_of m k' of None \<Rightarrow> [] | Some bs \<Rightarrow> bs) @ [b'])"
      using True by simp
    ultimately show ?thesis
      using export_loop_keeps[of ?m k _ b tags ex ?ct] by (simp add: x)
  next
    case False
    then have "(k, b) \<in> set ex" using Cons.prems x by auto
    from Cons.IH[OF this] show ?thesis by (simp add: x)
  qed
qed

lemma sweep_keeps:
  "map_of m k = Some bs0 \<Longrightarrow> b \<in> set bs0
     \<Longrightarrow> \<exists>bs'. map_of (fst (snd (sweep D c now force bs m ct))) k = Some bs' \<and> b \<in> set bs'"
proof (induction bs arbitrary: m ct bs0)
  case Nil
  then show ?case by simp
next
  case (Cons x bs)
  obtain ts srb where x: "x = (ts, srb)" by (cases x)
  show ?case
  proof (cases "\<not> force \<and> now - bufferLen c * bsize c <s ts")
    case True
    then show ?thesis using Cons.IH[OF Cons.prems, of ct] by (simp add: x case_prod_unfold)
  next
    case False
    obtain m1 ct1 where e: "export_loop (containerTagsByID srb) (Export D srb) m ct = (m1, ct1)"
      by (cases "export_loop (containerTagsByID srb) (Export D srb) m ct")
    obtain bs1 where "map_of m1 k = Some bs1" "b \<in> set bs1"
      using export_loop_keeps[OF Cons.prems, of "containerTagsByID srb" "Export D srb" ct] e by auto
    from Cons.IH[OF this, of ct1] show ?thesis using False e by (auto simp: x)
  qed
qed

lemma sweep_exports:
  "(ts, srb) \<in> set bs \<Longrightarrow> \<not> (\<not> force \<and> now - bufferLen c * bsize c <s ts)
     \<Longrightarrow> (k, b) \<in> set (Export D srb)
     \<Longrightarrow> \<exists>bs'. map_of (fst (snd (sweep D c now force bs m ct))) k = Some bs' \<and> b \<in> set bs'"
proof (induction bs arbitrary: m ct)
  case Nil
  then show ?case by simp
next
  case (Cons x bs)
  obtain ts' srb' where x: "x = (ts', srb')" by (cases x)
  show ?case
  proof (cases "\<not> force \<and> now - bufferLen c * bsize c <s ts'")
    case True
    then have "(ts, srb) \<in> set bs" using Cons.prems x by auto
    from Cons.IH[OF this Cons.prems(2,3), of m ct] show ?thesis
      using True by (simp add: x case_prod_unfold)
  next
    case False
    obtain m1 ct1 where e: "export_loop (containerTagsByID srb') (Export D srb') m ct = (m1, ct1)"
      by (cases "export_loop (containerTagsByID srb') (Export D srb') m ct")
    show ?thesis
    proof (cases "(ts, srb) = (ts', srb')")
      case True
      obtain bs1 where "map_of m1 k = Some bs1" "b \<in> set bs1"
        using export_loop_adds[OF Cons.prems(3), of "containerTagsByID srb" m ct] e True by auto
      from sweep_keeps[OF this, of D c now force bs ct1] show ?thesis
        using False e by (auto simp: x)
    next
      case ne: False
      then have "(ts, srb) \<in> set bs" using Cons.prems x by auto
      from Cons.IH[OF this Cons.prems(2,3), of m1 ct1] show ?thesis
        using False e by (auto simp: x)
    qed
  qed
qed

lemma assemble_group:
  "map_of m k = Some bs \<Longrightarrow> b \<in> set bs
     \<Longrightarrow> \<exists>g \<in> set (assemble m ct). group_key g = k \<and> b \<in> set (csp_Stats g)"
proof -
  assume a: "map_of m k = Some bs" "b \<in> set bs"
  then have "(k, bs) \<in> set m" by (simp add: map_of_SomeD)
  then have "(\<lambda>(k, s).
            \<lparr> csp_Env = Env k, csp_Hostname = Hostname k, csp_ContainerID = ContainerID k,
              csp_Version = Version k, csp_GitCommitSha = GitCommitSha k,
              csp_ImageTag = ImageTag k, csp_Stats = s,
              Tags = (case ct (ContainerID k) of None \<Rightarrow> [] | Some t \<Rightarrow> t) \<rparr>) (k, bs) \<in> set (assemble m ct)"
    unfolding assemble_def by (simp only: set_map) (rule imageI)
  then show ?thesis using a(2) by (force simp: group_key_def)
qed

lemma flushNow_result:
  assumes "bsize c \<noteq> 0"
  shows "\<exists>a. alignTs now (bsize c) = Inr a \<and>
     flushNow D c now force =
       Inr (c\<lparr>buckets := filter (\<lambda>(ts, b). \<not> force \<and> now - bufferLen c * bsize c <s ts) (buckets c),
              oldestTs := (if oldestTs c <s a - (bufferLen c - 1) * bsize c
                           then a - (bufferLen c - 1) * bsize c else oldestTs c)\<rparr>,
            Some \<lparr> Stats = assemble (fst (snd (sweep D c now force (buckets c) [] Map.empty)))
                                    (snd (snd (sweep D c now force (buckets c) [] Map.empty))),
                   AgentHostname = agentHostname c, AgentEnv = agentEnv c,
                   AgentVersion = agentVersion c \<rparr>)"
proof -
  obtain a where a: "alignTs now (bsize c) = Inr a" using alignTs_sint[OF assms] by blast
  show ?thesis
    by (simp add: flushNow_def a Let_def case_prod_unfold sweep_kept)
qed

lemma flushNow_exported:
  assumes nz: "bsize c \<noteq> 0"
    and fl: "flushNow D c now force = Inr (c', Some p)"
    and mem: "(ts, srb) \<in> set (buckets c)"
    and old: "\<not> (\<not> force \<and> now - bufferLen c * bsize c <s ts)"
    and ex: "(k, b) \<in> set (Export D srb)"
  shows "\<exists>g \<in> set (Stats p). group_key g = k \<and> b \<in> set (csp_Stats g)"
proof -
  let ?sw = "sweep D c now force (buckets c) [] Map.empty"
  have p: "Stats p = assemble (fst (snd ?sw)) (snd (snd ?sw))"
    using flushNow_result[OF nz, of now D force] fl by auto
  obtain bs' where "map_of (fst (snd ?sw)) k = Some bs'" "b \<in> set bs'"
    using sweep_exports[OF mem old ex] by blast
  from assemble_group[OF this] show ?thesis by (simp add: p)
qed

lemma flushNow_none_qualifies:
  assumes nz: "bsize c \<noteq> 0"
    and keep: "\<forall>(ts, srb) \<in> set (buckets c). \<not> force \<and> now - bufferLen c * bsize c <s ts"
    and fl: "flushNow D c now force = Inr (c', Some p)"
  shows "Stats p = [] \<and> buckets c' = buckets c"
proof -
  have sw: "sweep D c now force (buckets c) [] Map.empty = (buckets c, [], Map.empty)"
    by (rule sweep_all_kept[OF keep])
  have "filter (\<lambda>(ts, b). \<not> force \<and> now - bufferLen c * bsize c <s ts) (buckets c) = buckets c"
    using keep by (auto simp: filter_id_conv)
  then show ?thesis
    using flushNow_result[OF nz, of now D force] fl by (auto simp: sw assemble_def)
qed

subsection \<open>Concrete runs\<close>

lemmas run_defs = conc_two_def conc_at_def bucket_a_def key_a_def counting_def stats_a_def group_a_def
  payload_of_def flushNow_def alignTs_def go_rem_def assemble_def Let_def word_sless_alt word_sle_eq
  span_at_def top_level_def input_of_def trace_of_def

lemma NewConcentrator_conf10: "NewConcentrator [] conf10 1003 = Inr (conc_at 1000)"
  by (simp add: run_defs NewConcentrator_def conf10_def defaultBufferLen_def)

lemma conc_two_nz: "bsize conc_two \<noteq> 0"
  by (simp add: conc_two_def conc_at_def)

lemma add_two:
  "Add counting (conc_at 1000)
     (input_of [span_at 1002 3 Map.empty top_level, span_at 1020 9 Map.empty top_level])
   = Inr conc_two"
  by (simp add: run_defs Add_def addNow_def addNow_span_def bucket_time_def bucket_at_def)

lemma flush_two_1025:
  "flushNow counting conc_two 1025 False = Inr (conc_kept, Some (payload_of [group_a 1000]))"
  by (simp add: run_defs conc_kept_def)

lemma flush_kept_1045:
  "flushNow counting conc_kept 1045 False
     = Inr (conc_kept\<lparr>buckets := [], oldestTs := 1030\<rparr>, Some (payload_of [group_a 1020]))"
  by (simp add: run_defs conc_kept_def)

subsection \<open>Retention and forced drain\<close>

text \<open>
  Claim C2. After a flush that is not forced, at clock reading \<open>now\<close>, the bucket
  map holds exactly the buckets with \<open>ts > now - bufferLen * bsize\<close>, in the
  \<open>int64\<close> arithmetic of the code; every bucket that the flush removed had
  \<open>ts \<le> now - bufferLen * bsize\<close>, and each of its exported records is in the payload
  under its aggregation key.
\<close>

theorem flushNow_retention:
  assumes "bsize c \<noteq> 0"
  shows "\<exists>c' p. flushNow D c now False = Inr (c', Some p)
     \<and> buckets c' = filter (\<lambda>(ts, srb). now - bufferLen c * bsize c <s ts) (buckets c)
     \<and> (\<forall>(ts, srb) \<in> set (buckets c'). now - bufferLen c * bsize c <s ts)
     \<and> (\<forall>(ts, srb) \<in> set (buckets c) - set (buckets c').
            ts \<le>s now - bufferLen c * bsize c
          \<and> (\<forall>(k, b) \<in> set (Export D srb).
                \<exists>g \<in> set (Stats p). group_key g = k \<and> b \<in> set (csp_Stats g)))"
proof -
  obtain c' p where fl: "flushNow D c now False = Inr (c', Some p)"
    and bs: "buckets c' = filter (\<lambda>(ts, srb). now - bufferLen c * bsize c <s ts) (buckets c)"
    using flushNow_result[OF assms, of now D False] by auto
  have kept: "\<forall>(ts, srb) \<in> set (buckets c'). now - bufferLen c * bsize c <s ts"
    by (auto simp: bs)
  have gone: "\<forall>(ts, srb) \<in> set (buckets c) - set (buckets c').
            ts \<le>s now - bufferLen c * bsize c
          \<and> (\<forall>(k, b) \<in> set (Export D srb).
                \<exists>g \<in> set (Stats p). group_key g = k \<and> b \<in> set (csp_Stats g))"
  proof (clarify, intro conjI)
    fix ts srb
    assume mem: "(ts, srb) \<in> set (buckets c)" and "(ts, srb) \<notin> set (buckets c')"
    then have old: "\<not> now - bufferLen c * bsize c <s ts" by (auto simp: bs)
    then show "ts \<le>s now - bufferLen c * bsize c" by (simp add: signed.not_less)
    show "\<forall>(k, b) \<in> set (Export D srb).
            \<exists>g \<in> set (Stats p). group_key g = k \<and> b \<in> set (csp_Stats g)"
      using flushNow_exported[OF assms fl mem] old by auto
  qed
  show ?thesis using fl bs kept gone by blast
qed

text \<open>
  Claim C2 at a concrete flush: of the buckets 1000 and 1020, a flush at 1025 (cutoff
  1005) keeps 1020 and exports 1000.
\<close>

theorem flushNow_retention_witness:
  "bsize conc_two \<noteq> 0
   \<and> flushNow counting conc_two 1025 False = Inr (conc_kept, Some (payload_of [group_a 1000]))
   \<and> map fst (buckets conc_two) = [1000, 1020]
   \<and> map fst (buckets conc_kept) = [1020]
   \<and> 1025 - bufferLen conc_two * bsize conc_two <s 1020
   \<and> 1000 \<le>s 1025 - bufferLen conc_two * bsize conc_two"
proof -
  have h: "bsize conc_two \<noteq> 0" by (rule conc_two_nz)
  have m: "(1020, bucket_a 1020) \<in> set (buckets conc_kept)"
    "(1000, bucket_a 1000) \<in> set (buckets conc_two) - set (buckets conc_kept)"
    by (simp_all add: conc_kept_def conc_two_def)
  from flushNow_retention[OF h, of counting 1025] flush_two_1025
  have "(\<forall>(ts, srb) \<in> set (buckets conc_kept). 1025 - bufferLen conc_two * bsize conc_two <s ts)
   \<and> (\<forall>(ts, srb) \<in> set (buckets conc_two) - set (buckets conc_kept).
         ts \<le>s 1025 - bufferLen conc_two * bsize conc_two)"
    by fastforce
  then have "1025 - bufferLen conc_two * bsize conc_two <s 1020
      \<and> 1000 \<le>s 1025 - bufferLen conc_two * bsize conc_two"
    using m by blast
  then show ?thesis using h flush_two_1025 by (simp add: conc_kept_def conc_two_def)
qed
text \<open>
  Claim C3. A forced flush leaves the bucket map empty, whatever the timestamps and the
  clock reading, and every record that any bucket of the map exports is in the payload
  under its aggregation key.
\<close>

theorem flushNow_force_drains:
  assumes "bsize c \<noteq> 0"
  shows "\<exists>c' p. flushNow D c now True = Inr (c', Some p)
     \<and> buckets c' = []
     \<and> (\<forall>(ts, srb) \<in> set (buckets c). \<forall>(k, b) \<in> set (Export D srb).
            \<exists>g \<in> set (Stats p). group_key g = k \<and> b \<in> set (csp_Stats g))"
proof -
  obtain c' p where fl: "flushNow D c now True = Inr (c', Some p)"
    and bs: "buckets c' = []"
    using flushNow_result[OF assms, of now D True] by auto
  have "\<forall>(ts, srb) \<in> set (buckets c). \<forall>(k, b) \<in> set (Export D srb).
            \<exists>g \<in> set (Stats p). group_key g = k \<and> b \<in> set (csp_Stats g)"
    using flushNow_exported[OF assms fl] by auto
  then show ?thesis using fl bs by blast
qed

text \<open>
  Claim C3 at a concrete flush: forced at 1025, the flush also exports bucket 1020,
  which a flush that is not forced keeps.
\<close>

theorem flushNow_force_drains_witness:
  "bsize conc_two \<noteq> 0
   \<and> (\<exists>c' p. flushNow counting conc_two 1025 True = Inr (c', Some p)
         \<and> buckets c' = []
         \<and> (\<exists>g \<in> set (Stats p). group_key g = key_a \<and> stats_a 1020 \<in> set (csp_Stats g)))"
proof -
  have h: "bsize conc_two \<noteq> 0" by (rule conc_two_nz)
  have m: "(1020, bucket_a 1020) \<in> set (buckets conc_two)"
    by (simp add: conc_two_def)
  have e: "(key_a, stats_a 1020) \<in> set (Export counting (bucket_a 1020))"
    by (simp add: counting_def bucket_a_def stats_a_def)
  from flushNow_force_drains[OF h, of counting 1025] m e
  show ?thesis using h by fastforce
qed

subsection \<open>The payload\<close>

lemma Run_loop_writes:
  assumes "bsize c \<noteq> 0"
  shows "\<exists>c' ws. Run_loop D es c w0 = Inr (c', w0 @ ws)
     \<and> (\<forall>x \<in> set ws. \<exists>p. x = Some p \<and> AgentHostname p = agentHostname c
            \<and> AgentEnv p = agentEnv c \<and> AgentVersion p = agentVersion c)"
  using assms
proof (induction es arbitrary: c w0)
  case Nil
  then show ?case by simp
next
  case (Cons e es)
  show ?case
  proof (cases e)
    case (Tick now)
    obtain c1 p where fl: "flushNow D c now False = Inr (c1, Some p)"
      and fr: "bsize c1 = bsize c" "agentHostname c1 = agentHostname c"
        "agentEnv c1 = agentEnv c" "agentVersion c1 = agentVersion c"
      and id: "AgentHostname p = agentHostname c" "AgentEnv p = agentEnv c"
        "AgentVersion p = agentVersion c"
      using flushNow_result[OF Cons.prems, of now D False] by auto
    have "bsize c1 \<noteq> 0" using fr Cons.prems by simp
    from Cons.IH[OF this, of "w0 @ [Some p]"] obtain c' ws where
      r: "Run_loop D es c1 (w0 @ [Some p]) = Inr (c', (w0 @ [Some p]) @ ws)"
      and w: "\<forall>x \<in> set ws. \<exists>q. x = Some q \<and> AgentHostname q = agentHostname c1
            \<and> AgentEnv q = agentEnv c1 \<and> AgentVersion q = agentVersion c1"
      by blast
    have "Run_loop D (e # es) c w0 = Inr (c', w0 @ (Some p # ws))"
      using r fl by (simp add: Tick)
    moreover have "\<forall>x \<in> set (Some p # ws). \<exists>q. x = Some q \<and> AgentHostname q = agentHostname c
            \<and> AgentEnv q = agentEnv c \<and> AgentVersion q = agentVersion c"
      using w id fr by auto
    ultimately show ?thesis by blast
  next
    case (Exit now)
    obtain c1 p where fl: "flushNow D c now True = Inr (c1, Some p)"
      and id: "AgentHostname p = agentHostname c" "AgentEnv p = agentEnv c"
        "AgentVersion p = agentVersion c"
      using flushNow_result[OF Cons.prems, of now D True] by auto
    have "Run_loop D (e # es) c w0 = Inr (c1, w0 @ [Some p])"
      using fl by (simp add: Exit)
    moreover have "\<forall>x \<in> set [Some p]. \<exists>q. x = Some q \<and> AgentHostname q = agentHostname c
            \<and> AgentEnv q = agentEnv c \<and> AgentVersion q = agentVersion c"
      using id by auto
    ultimately show ?thesis by blast
  qed
qed

text \<open>
  Claim C10. For a bucket width other than zero, \<open>flushNow\<close> returns a payload
  pointer that is not \<open>nil\<close>; the payload carries the agent hostname, environment and
  version of the concentrator; when no bucket qualifies for export its \<open>Stats\<close> list
  is empty. With a positive width, every payload that the \<open>Run\<close> loop hands to the
  writer is such a pointer; with a width that is not positive \<open>Run\<close> panics in
  \<open>time.NewTicker\<close> before it writes anything.
\<close>

theorem flushNow_payload_identity:
  assumes "bsize c \<noteq> 0"
  shows "(\<exists>c' p. flushNow D c now force = Inr (c', Some p)
           \<and> AgentHostname p = agentHostname c
           \<and> AgentEnv p = agentEnv c
           \<and> AgentVersion p = agentVersion c
           \<and> ((\<forall>(ts, srb) \<in> set (buckets c).
                   \<not> force \<and> now - bufferLen c * bsize c <s ts) \<longrightarrow> Stats p = []))
       \<and> (0 <s bsize c \<longrightarrow>
            (\<exists>c' ws. Run D es c [] = Inr (c', ws)
               \<and> (\<forall>x \<in> set ws. \<exists>p. x = Some p \<and> AgentHostname p = agentHostname c
                     \<and> AgentEnv p = agentEnv c \<and> AgentVersion p = agentVersion c)))
       \<and> (bsize c \<le>s 0 \<longrightarrow> Run D es c [] = Inl NonPositiveInterval)"
proof -
  obtain c' p where fl: "flushNow D c now force = Inr (c', Some p)"
    and id: "AgentHostname p = agentHostname c" "AgentEnv p = agentEnv c"
      "AgentVersion p = agentVersion c"
    using flushNow_result[OF assms, of now D force] by auto
  have "(\<forall>(ts, srb) \<in> set (buckets c). \<not> force \<and> now - bufferLen c * bsize c <s ts)
          \<longrightarrow> Stats p = []"
    using flushNow_none_qualifies[OF assms _ fl] by blast
  then have one: "\<exists>c' p. flushNow D c now force = Inr (c', Some p)
           \<and> AgentHostname p = agentHostname c
           \<and> AgentEnv p = agentEnv c
           \<and> AgentVersion p = agentVersion c
           \<and> ((\<forall>(ts, srb) \<in> set (buckets c).
                   \<not> force \<and> now - bufferLen c * bsize c <s ts) \<longrightarrow> Stats p = [])"
    using fl id by blast
  have two: "0 <s bsize c \<longrightarrow>
            (\<exists>c' ws. Run D es c [] = Inr (c', ws)
               \<and> (\<forall>x \<in> set ws. \<exists>p. x = Some p \<and> AgentHostname p = agentHostname c
                     \<and> AgentEnv p = agentEnv c \<and> AgentVersion p = agentVersion c))"
  proof
    assume "0 <s bsize c"
    then have "\<not> bsize c \<le>s 0" by (simp add: word_sle_eq word_sless_alt)
    then have "Run D es c [] = Run_loop D es c []" by (simp add: Run_def)
    then show "\<exists>c' ws. Run D es c [] = Inr (c', ws)
               \<and> (\<forall>x \<in> set ws. \<exists>p. x = Some p \<and> AgentHostname p = agentHostname c
                     \<and> AgentEnv p = agentEnv c \<and> AgentVersion p = agentVersion c)"
      using Run_loop_writes[OF assms, of D es "[]"] by simp
  qed
  have three: "bsize c \<le>s 0 \<longrightarrow> Run D es c [] = Inl NonPositiveInterval"
    by (simp add: Run_def)
  show ?thesis using one two three by blast
qed

text \<open>
  Claim C10 at a concrete flush: bucket 1020 does not qualify at 1025, and the payload
  has the agent's fields and no groups.
\<close>

theorem flushNow_payload_identity_witness:
  "bsize conc_kept \<noteq> 0
   \<and> 0 <s bsize conc_kept
   \<and> map fst (buckets conc_kept) = [1020]
   \<and> 1025 - bufferLen conc_kept * bsize conc_kept <s 1020
   \<and> (\<exists>c' p. flushNow counting conc_kept 1025 False = Inr (c', Some p)
         \<and> AgentHostname p = ''host-a'' \<and> AgentEnv p = ''prod'' \<and> AgentVersion p = ''7.50''
         \<and> Stats p = [])
   \<and> (\<exists>c' ws. Run counting [Tick 1025, Exit 1026] conc_kept [] = Inr (c', ws) \<and> None \<notin> set ws)"
proof -
  have h: "bsize conc_kept \<noteq> 0" by (simp add: conc_kept_def conc_two_def conc_at_def)
  have k0: "map fst (buckets conc_kept) = [1020]"
    "1025 - bufferLen conc_kept * bsize conc_kept <s 1020"
    "0 <s bsize conc_kept"
    by (simp_all add: conc_kept_def conc_two_def conc_at_def word_sless_alt)
  have k: "\<forall>(ts, srb) \<in> set (buckets conc_kept).
         \<not> False \<and> 1025 - bufferLen conc_kept * bsize conc_kept <s ts"
    by (simp add: conc_kept_def conc_two_def conc_at_def word_sless_alt)
  have id: "agentHostname conc_kept = ''host-a''" "agentEnv conc_kept = ''prod''"
    "agentVersion conc_kept = ''7.50''"
    by (simp_all add: conc_kept_def conc_two_def conc_at_def)
  from flushNow_payload_identity[OF h, of counting 1025 False "[Tick 1025, Exit 1026]"] k k0(3) id
  have "(\<exists>c' p. flushNow counting conc_kept 1025 False = Inr (c', Some p)
         \<and> AgentHostname p = ''host-a'' \<and> AgentEnv p = ''prod'' \<and> AgentVersion p = ''7.50''
         \<and> Stats p = [])
   \<and> (\<exists>c' ws. Run counting [Tick 1025, Exit 1026] conc_kept [] = Inr (c', ws) \<and> None \<notin> set ws)"
    by fastforce
  then show ?thesis using h k0 by blast
qed
text \<open>
  Claim C8, amended. Let a flush follow another one with no ingestion between them. If
  the first flush was forced, or if the second is not forced and its cutoff
  \<open>now2 - bufferLen * bsize\<close> is not later than the cutoff of the first (as when both
  use the same clock reading), then the second payload has no groups and the bucket map
  is unchanged.
\<close>

theorem flushNow_twice_empty:
  assumes nz: "bsize c \<noteq> 0"
    and first: "flushNow D c now1 force1 = Inr (c1, p1)"
    and cond: "force1 \<or> (\<not> force2 \<and>
                 now2 - bufferLen c * bsize c \<le>s now1 - bufferLen c * bsize c)"
  shows "\<exists>c2 p2. flushNow D c1 now2 force2 = Inr (c2, Some p2)
           \<and> Stats p2 = [] \<and> buckets c2 = buckets c1"
proof -
  have c1: "bsize c1 = bsize c" "bufferLen c1 = bufferLen c"
    "buckets c1 = filter (\<lambda>(ts, b). \<not> force1 \<and> now1 - bufferLen c * bsize c <s ts) (buckets c)"
    using flushNow_result[OF nz, of now1 D force1] first by auto
  have nz1: "bsize c1 \<noteq> 0" using c1 nz by simp
  obtain c2 p2 where second: "flushNow D c1 now2 force2 = Inr (c2, Some p2)"
    using flushNow_result[OF nz1, of now2 D force2] by auto
  have keep: "\<forall>(ts, srb) \<in> set (buckets c1).
                \<not> force2 \<and> now2 - bufferLen c1 * bsize c1 <s ts"
  proof (cases force1)
    case True
    then show ?thesis by (simp add: c1)
  next
    case False
    then have le: "\<not> force2"
      "now2 - bufferLen c * bsize c \<le>s now1 - bufferLen c * bsize c"
      using cond by auto
    show ?thesis using le False by (auto simp: c1 word_sle_eq word_sless_alt)
  qed
  from flushNow_none_qualifies[OF nz1 keep second] show ?thesis using second by blast
qed

text \<open>
  Claim C8, the amended statement at two flushes with the clock reading 1025.
\<close>

theorem flushNow_twice_empty_witness:
  "bsize conc_two \<noteq> 0
   \<and> flushNow counting conc_two 1025 False = Inr (conc_kept, Some (payload_of [group_a 1000]))
   \<and> 1025 - bufferLen conc_two * bsize conc_two \<le>s 1025 - bufferLen conc_two * bsize conc_two
   \<and> (\<exists>c2 p2. flushNow counting conc_kept 1025 False = Inr (c2, Some p2)
         \<and> Stats p2 = [] \<and> buckets c2 = buckets conc_kept)"
proof -
  have h: "bsize conc_two \<noteq> 0" by (rule conc_two_nz)
  have c: "False \<or> (\<not> False \<and>
         1025 - bufferLen conc_two * bsize conc_two \<le>s 1025 - bufferLen conc_two * bsize conc_two)"
    by simp
  from flushNow_twice_empty[OF h flush_two_1025 c]
  show ?thesis using h flush_two_1025 by simp
qed
text \<open>
  Claim C8 as stated fails when the clock advances: the flush at 1025 keeps bucket
  1020, and the next flush, at 1045 and with no ingestion in between, exports it.
\<close>

theorem flushNow_twice_counterexample:
  "NewConcentrator [] conf10 1003 = Inr (conc_at 1000)
   \<and> Add counting (conc_at 1000)
       (input_of [span_at 1002 3 Map.empty top_level, span_at 1020 9 Map.empty top_level])
     = Inr conc_two
   \<and> flushNow counting conc_two 1025 False = Inr (conc_kept, Some (payload_of [group_a 1000]))
   \<and> flushNow counting conc_kept 1045 False
     = Inr (conc_kept\<lparr>buckets := [], oldestTs := 1030\<rparr>, Some (payload_of [group_a 1020]))
   \<and> Stats (payload_of [group_a 1020]) \<noteq> []"
  using NewConcentrator_conf10 add_two flush_two_1025 flush_kept_1045 by (simp add: payload_of_def)

subsection \<open>The watermark\<close>

lemma bucket_time_buckets:
  "bucket_time (c\<lparr>buckets := bs\<rparr>) s = bucket_time c s"
  by (simp add: bucket_time_def Let_def split: sum.splits)

lemma addNow_span_keys:
  assumes nz: "bsize c \<noteq> 0"
    and old: "\<forall>ts \<in> fst ` set (buckets c). P ts"
    and new: "\<forall>s bt. bucket_time c s = Inr bt \<longrightarrow> P bt"
  shows "\<exists>bs. addNow_span D c w origin aggKey containerID containerTags s = Inr (c\<lparr>buckets := bs\<rparr>)
           \<and> (\<forall>ts \<in> fst ` set bs. P ts)"
proof -
  obtain bt where bt: "bucket_time c s = Inr bt" using bucket_time_total[OF nz] by blast
  then have pbt: "P bt" using new by blast
  let ?bs = "AList.update bt
               (HandleSpan D s w (HasTopLevel D s) origin aggKey
                  (peerTagsAggregation c) (peerTagKeys c)
                  (bucket_at D c bt containerID containerTags))
               (buckets c)"
  have keys: "\<forall>ts \<in> fst ` set ?bs. P ts"
    using old pbt by (simp add: dom_update)
  have "addNow_span D c w origin aggKey containerID containerTags s = Inr (c\<lparr>buckets := ?bs\<rparr>)
      \<or> addNow_span D c w origin aggKey containerID containerTags s = Inr (c\<lparr>buckets := buckets c\<rparr>)"
    by (simp add: addNow_span_def Let_def bt)
  then show ?thesis using keys old by blast
qed

lemma addNow_loop_keys:
  "bsize c \<noteq> 0 \<Longrightarrow> \<forall>ts \<in> fst ` set (buckets c). P ts
     \<Longrightarrow> \<forall>s bt. bucket_time c s = Inr bt \<longrightarrow> P bt
     \<Longrightarrow> \<exists>bs. addNow_loop D c w origin aggKey containerID containerTags ss = Inr (c\<lparr>buckets := bs\<rparr>)
           \<and> (\<forall>ts \<in> fst ` set bs. P ts)"
proof (induction ss arbitrary: c)
  case Nil
  have "addNow_loop D c w origin aggKey containerID containerTags [] = Inr (c\<lparr>buckets := buckets c\<rparr>)"
    by simp
  then show ?case using Nil.prems(2) by blast
next
  case (Cons s ss)
  obtain bs where st: "addNow_span D c w origin aggKey containerID containerTags s = Inr (c\<lparr>buckets := bs\<rparr>)"
    and k: "\<forall>ts \<in> fst ` set bs. P ts"
    using addNow_span_keys[OF Cons.prems, of D w origin aggKey containerID containerTags s] by blast
  let ?c = "c\<lparr>buckets := bs\<rparr>"
  have "bsize ?c \<noteq> 0" using Cons.prems(1) by simp
  moreover have "\<forall>ts \<in> fst ` set (buckets ?c). P ts" using k by simp
  moreover have "\<forall>s bt. bucket_time ?c s = Inr bt \<longrightarrow> P bt"
    using Cons.prems(3) by (simp add: bucket_time_buckets)
  ultimately obtain bs' where
    "addNow_loop D ?c w origin aggKey containerID containerTags ss = Inr (?c\<lparr>buckets := bs'\<rparr>)"
    "\<forall>ts \<in> fst ` set bs'. P ts"
    using Cons.IH[of ?c] by blast
  then show ?case using st by (intro exI[of _ bs']) simp
qed

lemma addNow_keys:
  assumes "bsize c \<noteq> 0" "\<forall>ts \<in> fst ` set (buckets c). P ts"
    "\<forall>s bt. bucket_time c s = Inr bt \<longrightarrow> P bt"
  shows "\<exists>bs. addNow D c pt containerID containerTags = Inr (c\<lparr>buckets := bs\<rparr>)
           \<and> (\<forall>ts \<in> fst ` set bs. P ts)"
  unfolding addNow_def Let_def by (rule addNow_loop_keys[OF assms])

lemma Add_loop_keys:
  "bsize c \<noteq> 0 \<Longrightarrow> \<forall>ts \<in> fst ` set (buckets c). P ts
     \<Longrightarrow> \<forall>s bt. bucket_time c s = Inr bt \<longrightarrow> P bt
     \<Longrightarrow> \<exists>bs. Add_loop D c containerID containerTags pts = Inr (c\<lparr>buckets := bs\<rparr>)
           \<and> (\<forall>ts \<in> fst ` set bs. P ts)"
proof (induction pts arbitrary: c)
  case Nil
  have "Add_loop D c containerID containerTags [] = Inr (c\<lparr>buckets := buckets c\<rparr>)"
    by simp
  then show ?case using Nil.prems(2) by blast
next
  case (Cons pt pts)
  obtain bs where st: "addNow D c pt containerID containerTags = Inr (c\<lparr>buckets := bs\<rparr>)"
    and k: "\<forall>ts \<in> fst ` set bs. P ts"
    using addNow_keys[OF Cons.prems, of D pt containerID containerTags] by blast
  let ?c = "c\<lparr>buckets := bs\<rparr>"
  have "bsize ?c \<noteq> 0" using Cons.prems(1) by simp
  moreover have "\<forall>ts \<in> fst ` set (buckets ?c). P ts" using k by simp
  moreover have "\<forall>s bt. bucket_time ?c s = Inr bt \<longrightarrow> P bt"
    using Cons.prems(3) by (simp add: bucket_time_buckets)
  ultimately obtain bs' where
    "Add_loop D ?c containerID containerTags pts = Inr (?c\<lparr>buckets := bs'\<rparr>)"
    "\<forall>ts \<in> fst ` set bs'. P ts"
    using Cons.IH[of ?c] by blast
  then show ?case using st by (intro exI[of _ bs']) simp
qed

lemma Add_keys:
  assumes "bsize c \<noteq> 0" "\<forall>ts \<in> fst ` set (buckets c). P ts"
    "\<forall>s bt. bucket_time c s = Inr bt \<longrightarrow> P bt"
  shows "\<exists>bs. Add D c t = Inr (c\<lparr>buckets := bs\<rparr>) \<and> (\<forall>ts \<in> fst ` set bs. P ts)"
  unfolding Add_def by (rule Add_loop_keys[OF assms])

lemma Add_frame:
  assumes "bsize c \<noteq> 0"
  shows "\<exists>bs. Add D c t = Inr (c\<lparr>buckets := bs\<rparr>)"
  using Add_keys[OF assms, of "\<lambda>ts. True" D t] by auto

lemma calls_append:
  "calls D (xs @ ys) c = (case calls D xs c of Inl e \<Rightarrow> Inl e | Inr c1 \<Rightarrow> calls D ys c1)"
proof (induction xs arbitrary: c)
  case Nil
  then show ?case by simp
next
  case (Cons x xs)
  then show ?case by (cases x) (auto split: sum.splits)
qed

lemma calls_oldestTs:
  "bsize c \<noteq> 0 \<Longrightarrow>
     \<exists>c'. calls D cs c = Inr c' \<and> bsize c' = bsize c \<and> oldestTs c \<le>s oldestTs c'"
proof (induction cs arbitrary: c)
  case Nil
  then show ?case by simp
next
  case (Cons x cs)
  show ?case
  proof (cases x)
    case (CallAdd t)
    obtain bs where a: "Add D c t = Inr (c\<lparr>buckets := bs\<rparr>)"
      using Add_frame[OF Cons.prems] by blast
    have "bsize (c\<lparr>buckets := bs\<rparr>) \<noteq> 0" using Cons.prems by simp
    from Cons.IH[OF this] show ?thesis using a by (auto simp: CallAdd)
  next
    case (CallFlush now force)
    obtain c1 p where fl: "flushNow D c now force = Inr (c1, p)"
      and fr: "bsize c1 = bsize c" and le: "oldestTs c \<le>s oldestTs c1"
      using flushNow_result[OF Cons.prems, of now D force]
      by (auto simp: word_sle_eq word_sless_alt)
    have "bsize c1 \<noteq> 0" using fr Cons.prems by simp
    from Cons.IH[OF this] obtain c' where
      "calls D cs c1 = Inr c'" "bsize c' = bsize c1" "oldestTs c1 \<le>s oldestTs c'"
      by blast
    then show ?thesis using fl fr le
      by (auto simp: CallFlush word_sle_eq)
  qed
qed

text \<open>
  Claim C4. For a bucket width other than zero: a flush sets \<open>oldestTs\<close> to
  \<open>alignTs(now, bsize) - (bufferLen - 1) * bsize\<close> when that value is strictly greater
  than the current one and leaves it otherwise; \<open>Add\<close> does not change it; and along
  every sequence of \<open>Add\<close> and flush calls, with any clock readings in any order, every
  call returns and \<open>oldestTs\<close> never decreases (in the signed order of \<open>int64\<close>).
\<close>

theorem oldestTs_monotone:
  assumes "bsize c \<noteq> 0"
  shows "(\<exists>a c' p. alignTs now (bsize c) = Inr a
            \<and> flushNow D c now force = Inr (c', p)
            \<and> oldestTs c' = (if oldestTs c <s a - (bufferLen c - 1) * bsize c
                              then a - (bufferLen c - 1) * bsize c else oldestTs c)
            \<and> oldestTs c \<le>s oldestTs c')
       \<and> (\<exists>c'. Add D c t = Inr c' \<and> oldestTs c' = oldestTs c)
       \<and> (\<exists>c1 c2. calls D xs c = Inr c1 \<and> calls D (xs @ ys) c = Inr c2
            \<and> oldestTs c \<le>s oldestTs c1 \<and> oldestTs c1 \<le>s oldestTs c2)"
proof -
  have one: "\<exists>a c' p. alignTs now (bsize c) = Inr a
            \<and> flushNow D c now force = Inr (c', p)
            \<and> oldestTs c' = (if oldestTs c <s a - (bufferLen c - 1) * bsize c
                              then a - (bufferLen c - 1) * bsize c else oldestTs c)
            \<and> oldestTs c \<le>s oldestTs c'"
    using flushNow_result[OF assms, of now D force]
    by (auto simp: word_sle_eq word_sless_alt)
  have two: "\<exists>c'. Add D c t = Inr c' \<and> oldestTs c' = oldestTs c"
    using Add_frame[OF assms, of D t] by auto
  obtain c1 where c1: "calls D xs c = Inr c1" "bsize c1 = bsize c" "oldestTs c \<le>s oldestTs c1"
    using calls_oldestTs[OF assms, of D xs] by blast
  have "bsize c1 \<noteq> 0" using c1 assms by simp
  then obtain c2 where c2: "calls D ys c1 = Inr c2" "oldestTs c1 \<le>s oldestTs c2"
    using calls_oldestTs[of c1 D ys] by blast
  have "calls D (xs @ ys) c = Inr c2" using c1 c2 by (simp add: calls_append)
  then show ?thesis using one two c1 c2 by blast
qed

text \<open>
  Claim C4 at a concrete sequence: a flush at 1045, an \<open>Add\<close>, then a forced flush
  with the earlier clock reading 1025.
\<close>

theorem oldestTs_monotone_witness:
  "bsize conc_two \<noteq> 0
   \<and> (\<exists>c1 c2. calls counting [CallFlush 1045 False] conc_two = Inr c1
         \<and> calls counting ([CallFlush 1045 False]
               @ [CallAdd (input_of [span_at 1002 3 Map.empty top_level]), CallFlush 1025 True])
              conc_two = Inr c2
         \<and> oldestTs conc_two \<le>s oldestTs c1 \<and> oldestTs c1 \<le>s oldestTs c2)"
proof -
  have h: "bsize conc_two \<noteq> 0" by (rule conc_two_nz)
  from oldestTs_monotone[OF h, of 1045 counting False _ "[CallFlush 1045 False]"
      "[CallAdd (input_of [span_at 1002 3 Map.empty top_level]), CallFlush 1025 True]"]
  show ?thesis using h by blast
qed

subsection \<open>Alignment of the bucket keys\<close>

lemma trunc_dvd:
  fixes e w :: int
  shows "w dvd e - sgn e * (\<bar>e\<bar> mod \<bar>w\<bar>)"
proof -
  have "\<bar>e\<bar> - \<bar>e\<bar> mod \<bar>w\<bar> = \<bar>w\<bar> * (\<bar>e\<bar> div \<bar>w\<bar>)"
    by (simp add: minus_mod_eq_mult_div)
  then have d: "w dvd \<bar>e\<bar> - \<bar>e\<bar> mod \<bar>w\<bar>" by simp
  have "e - sgn e * (\<bar>e\<bar> mod \<bar>w\<bar>) = sgn e * (\<bar>e\<bar> - \<bar>e\<bar> mod \<bar>w\<bar>)"
    by (simp add: algebra_simps sgn_if)
  then show ?thesis using d by simp
qed

lemma alignTs_dvd:
  assumes "y \<noteq> 0" "alignTs x y = Inr a"
  shows "sint y dvd sint a"
  using alignTs_sint[OF assms(1), of x] assms(2) trunc_dvd[of "sint y" "sint x"] by auto

lemma bucket_time_dvd:
  assumes "bsize c \<noteq> 0" "sint (bsize c) dvd sint (oldestTs c)" "bucket_time c s = Inr bt"
  shows "sint (bsize c) dvd sint bt"
proof -
  obtain a where a: "alignTs (Start s + Duration s) (bsize c) = Inr a"
    using alignTs_sint[OF assms(1)] by blast
  have "sint (bsize c) dvd sint a" by (rule alignTs_dvd[OF assms(1) a])
  then show ?thesis using assms(2,3) by (auto simp: bucket_time_alignTs a split: if_splits)
qed

lemma watermark_sint:
  assumes w: "0 < sint y" and lo: "- (2^63) \<le> sint now - sint y"
    and a: "alignTs now y = Inr a"
  shows "sint (a - (2 - 1) * y) = sint a - sint y"
proof -
  have nz: "y \<noteq> 0" using w by auto
  have y0: "sint y \<noteq> 0" using w by simp
  have sa: "sint a = sint now - sgn (sint now) * (\<bar>sint now\<bar> mod \<bar>sint y\<bar>)"
    using alignTs_sint[OF nz, of now] a by auto
  define r where "r = sgn (sint now) * (\<bar>sint now\<bar> mod \<bar>sint y\<bar>)"
  have rb: "(0 \<le> sint now \<longrightarrow> 0 \<le> r \<and> r \<le> sint now)
          \<and> (sint now < 0 \<longrightarrow> sint now \<le> r \<and> r \<le> 0)"
    unfolding r_def by (rule rem_bounds[OF y0])
  have sa': "sint a = sint now - r" using sa by (simp add: r_def)
  have "- (2^63) \<le> sint a - sint y \<and> sint a - sint y < 2^63"
    using rb sa' sint_range64[of now] sint_range64[of y] w lo by linarith
  then have "sint (a - y) = sint a - sint y"
    by (simp add: sint_word_ariths signed_take_bit_int_eq_self)
  then show ?thesis by simp
qed

lemma calls_aligned:
  "0 < sint (bsize c) \<Longrightarrow> bufferLen c = 2 \<Longrightarrow> sint (bsize c) dvd sint (oldestTs c)
     \<Longrightarrow> \<forall>ts \<in> fst ` set (buckets c). sint (bsize c) dvd sint ts
     \<Longrightarrow> \<forall>now \<in> set (flush_times cs). - (2^63) \<le> sint now - sint (bsize c)
     \<Longrightarrow> \<exists>c'. calls D cs c = Inr c' \<and> bsize c' = bsize c
            \<and> sint (bsize c') dvd sint (oldestTs c')
            \<and> (\<forall>ts \<in> fst ` set (buckets c'). sint (bsize c') dvd sint ts)"
proof (induction cs arbitrary: c)
  case Nil
  then show ?case by simp
next
  case (Cons x cs)
  have nz: "bsize c \<noteq> 0" using Cons.prems(1) by auto
  show ?case
  proof (cases x)
    case (CallAdd t)
    have new: "\<forall>s bt. bucket_time c s = Inr bt \<longrightarrow> sint (bsize c) dvd sint bt"
      using bucket_time_dvd[OF nz Cons.prems(3)] by blast
    obtain bs where a: "Add D c t = Inr (c\<lparr>buckets := bs\<rparr>)"
      and k: "\<forall>ts \<in> fst ` set bs. sint (bsize c) dvd sint ts"
      using Add_keys[OF nz Cons.prems(4) new, of D t] by blast
    let ?c = "c\<lparr>buckets := bs\<rparr>"
    have "\<exists>c'. calls D cs ?c = Inr c' \<and> bsize c' = bsize ?c
            \<and> sint (bsize c') dvd sint (oldestTs c')
            \<and> (\<forall>ts \<in> fst ` set (buckets c'). sint (bsize c') dvd sint ts)"
      using Cons.prems k by (intro Cons.IH) (simp_all add: CallAdd)
    then show ?thesis using a by (auto simp: CallAdd)
  next
    case (CallFlush now force)
    have lo: "- (2^63) \<le> sint now - sint (bsize c)"
      using Cons.prems(5) by (simp add: CallFlush)
    obtain a where a: "alignTs now (bsize c) = Inr a"
      and fl: "flushNow D c now force =
       Inr (c\<lparr>buckets := filter (\<lambda>(ts, b). \<not> force \<and> now - bufferLen c * bsize c <s ts) (buckets c),
              oldestTs := (if oldestTs c <s a - (bufferLen c - 1) * bsize c
                           then a - (bufferLen c - 1) * bsize c else oldestTs c)\<rparr>,
            Some \<lparr> Stats = assemble (fst (snd (sweep D c now force (buckets c) [] Map.empty)))
                                    (snd (snd (sweep D c now force (buckets c) [] Map.empty))),
                   AgentHostname = agentHostname c, AgentEnv = agentEnv c,
                   AgentVersion = agentVersion c \<rparr>)"
      using flushNow_result[OF nz, of now D force] by blast
    let ?c = "c\<lparr>buckets := filter (\<lambda>(ts, b). \<not> force \<and> now - bufferLen c * bsize c <s ts) (buckets c),
              oldestTs := (if oldestTs c <s a - (bufferLen c - 1) * bsize c
                           then a - (bufferLen c - 1) * bsize c else oldestTs c)\<rparr>"
    have wm: "sint (a - (bufferLen c - 1) * bsize c) = sint a - sint (bsize c)"
      using watermark_sint[OF Cons.prems(1) lo a] Cons.prems(2) by simp
    have "sint (bsize c) dvd sint a" by (rule alignTs_dvd[OF nz a])
    then have "sint (bsize c) dvd sint (a - (bufferLen c - 1) * bsize c)"
      by (simp add: wm)
    then have o: "sint (bsize ?c) dvd sint (oldestTs ?c)" using Cons.prems(3) by simp
    have k: "\<forall>ts \<in> fst ` set (buckets ?c). sint (bsize ?c) dvd sint ts"
      using Cons.prems(4) by auto
    have "\<exists>c'. calls D cs ?c = Inr c' \<and> bsize c' = bsize ?c
            \<and> sint (bsize c') dvd sint (oldestTs c')
            \<and> (\<forall>ts \<in> fst ` set (buckets c'). sint (bsize c') dvd sint ts)"
      using Cons.prems(1,2,5) o k by (intro Cons.IH) (simp_all add: CallFlush)
    then show ?thesis using fl by (auto simp: CallFlush)
  qed
qed

text \<open>
  Claim C9, amended. Let the concentrator come from \<open>NewConcentrator\<close> with a positive
  bucket width, and let every flush have a clock reading \<open>now\<close> for which
  \<open>now - bsize\<close> does not fall below the least \<open>int64\<close>. Then the watermark at
  construction is a multiple of the bucket width, and after every sequence of \<open>Add\<close>
  and flush calls the watermark and every key of the bucket map are multiples of the
  bucket width.
\<close>

theorem bucket_keys_aligned:
  assumes new: "NewConcentrator defaultPeerTags conf now0 = Inr c0"
    and w: "0 <s BucketInterval conf"
    and fl: "\<forall>now \<in> set (flush_times cs). - (2^63) \<le> sint now - sint (BucketInterval conf)"
  shows "sint (bsize c0) dvd sint (oldestTs c0)
       \<and> buckets c0 = []
       \<and> (\<exists>c. calls D cs c0 = Inr c
             \<and> sint (bsize c) dvd sint (oldestTs c)
             \<and> (\<forall>ts \<in> fst ` set (buckets c). sint (bsize c) dvd sint ts))"
proof -
  have nz: "BucketInterval conf \<noteq> 0" using w by auto
  obtain a where a: "alignTs now0 (BucketInterval conf) = Inr a"
    using alignTs_sint[OF nz] by blast
  have c0: "bsize c0 = BucketInterval conf" "oldestTs c0 = a" "bufferLen c0 = 2" "buckets c0 = []"
    using new by (auto simp: NewConcentrator_def a defaultBufferLen_def)
  have d0: "sint (bsize c0) dvd sint (oldestTs c0)"
    using alignTs_dvd[OF nz a] by (simp add: c0)
  have "\<exists>c'. calls D cs c0 = Inr c' \<and> bsize c' = bsize c0
            \<and> sint (bsize c') dvd sint (oldestTs c')
            \<and> (\<forall>ts \<in> fst ` set (buckets c'). sint (bsize c') dvd sint ts)"
    using w fl d0 by (intro calls_aligned) (simp_all add: c0 word_sless_alt)
  then show ?thesis using d0 c0 by blast
qed

text \<open>
  Claim C9, the amended statement at a concrete sequence: a late span, two flushes,
  the second out of order, and another late span. The run ends with the watermark 1010
  and the one key 1010, where the last span was clamped to.
\<close>

theorem bucket_keys_aligned_witness:
  "NewConcentrator [] conf10 1003 = Inr (conc_at 1000)
   \<and> 0 <s BucketInterval conf10
   \<and> flush_times
        [CallAdd (input_of [span_at 975 0 Map.empty top_level]), CallFlush 1025 False,
         CallFlush (- 50) True, CallAdd (input_of [span_at 975 0 Map.empty top_level])]
       = [1025, - 50]
   \<and> - (2^63) \<le> sint (1025 :: int64) - sint (BucketInterval conf10)
   \<and> - (2^63) \<le> sint (- 50 :: int64) - sint (BucketInterval conf10)
   \<and> calls counting
        [CallAdd (input_of [span_at 975 0 Map.empty top_level]), CallFlush 1025 False,
         CallFlush (- 50) True, CallAdd (input_of [span_at 975 0 Map.empty top_level])]
        (conc_at 1000)
       = Inr ((conc_at 1010)\<lparr>buckets := [(1010, bucket_a 1010)]\<rparr>)
   \<and> sint (bsize ((conc_at 1010)\<lparr>buckets := [(1010, bucket_a 1010)]\<rparr>))
         dvd sint (oldestTs ((conc_at 1010)\<lparr>buckets := [(1010, bucket_a 1010)]\<rparr>))
   \<and> sint (bsize ((conc_at 1010)\<lparr>buckets := [(1010, bucket_a 1010)]\<rparr>))
         dvd sint (1010 :: int64)"
proof -
  let ?cs = "[CallAdd (input_of [span_at 975 0 Map.empty top_level]), CallFlush 1025 False,
              CallFlush (- 50) True, CallAdd (input_of [span_at 975 0 Map.empty top_level])]"
  let ?c = "(conc_at 1010)\<lparr>buckets := [(1010, bucket_a 1010)]\<rparr>"
  have h1: "NewConcentrator [] conf10 1003 = Inr (conc_at 1000 :: hit_data Concentrator)"
    by (rule NewConcentrator_conf10)
  have h2: "0 <s BucketInterval conf10" by (simp add: conf10_def word_sless_alt)
  have t: "flush_times ?cs = [1025, - 50]"
    "- (2^63) \<le> sint (1025 :: int64) - sint (BucketInterval conf10)"
    "- (2^63) \<le> sint (- 50 :: int64) - sint (BucketInterval conf10)"
    by (simp_all add: conf10_def)
  have h3: "\<forall>now \<in> set (flush_times ?cs).
              - (2^63) \<le> sint now - sint (BucketInterval conf10)"
    by (simp add: conf10_def)
  have run: "calls counting ?cs (conc_at 1000) = Inr ?c"
    by (simp add: run_defs Add_def addNow_def addNow_span_def bucket_time_def bucket_at_def)
  have key: "(1010 :: int64) \<in> fst ` set (buckets ?c)" by simp
  from bucket_keys_aligned[OF h1 h2 h3, of counting] run
  have "sint (bsize ?c) dvd sint (oldestTs ?c)
      \<and> (\<forall>ts \<in> fst ` set (buckets ?c). sint (bsize ?c) dvd sint ts)"
    by simp
  then have "sint (bsize ?c) dvd sint (oldestTs ?c) \<and> sint (bsize ?c) dvd sint (1010 :: int64)"
    using key by blast
  then show ?thesis using h1 h2 t run by blast
qed

text \<open>
  Claim C9 as stated fails when the watermark overflows. After a flush at the clock
  reading -9223372036854775803 the candidate \<open>alignTs(now, 10) - 10\<close> wraps around to
  9223372036854775806, which becomes the watermark; the next span is clamped to it, and
  the key is not a multiple of 10.
\<close>

theorem bucket_keys_aligned_counterexample:
  "NewConcentrator [] conf10 0 = Inr (conc_at 0)
   \<and> calls counting
       [CallFlush (- 9223372036854775803) False,
        CallAdd (input_of [span_at 0 0 Map.empty top_level])] (conc_at 0)
     = Inr ((conc_at 9223372036854775806)
              \<lparr>buckets := [(9223372036854775806,
                             (bucket_a 0)\<lparr>rb_data := (rb_data (bucket_a 0))
                                \<lparr>hd_start := 9223372036854775806\<rparr>\<rparr>)]\<rparr>)
   \<and> \<not> sint (bsize (conc_at 0)) dvd sint (9223372036854775806 :: int64)"
  by (simp add: run_defs NewConcentrator_def conf10_def defaultBufferLen_def
      Add_def addNow_def addNow_span_def bucket_time_def bucket_at_def)

end
